theory Spec2Isabelle
  imports Complex_Main "HOL-Library.Multiset" "HOL-Library.Word"
begin

section \<open>Images, slices and blocks\<close>

text \<open>
  A raster image (a numpy array of shape \<open>(h, w, 3)\<close>) is the list of its rows, each row the
  list of its pixels. The pixel type is left open; \<open>0\<close> is the pixel \<open>np.zeros\<close> writes.
  An array with no rows is \<open>[]\<close>, whatever its nominal width.
\<close>

datatype error = ZeroDivisionError | IndexError | ValueError | CvError

type_synonym 'a image = "'a list list"

definition height :: "'a image \<Rightarrow> nat" where
  "height img = length img"

definition width :: "'a image \<Rightarrow> nat" where
  "width img = (case img of [] \<Rightarrow> 0 | r # _ \<Rightarrow> length r)"


definition has_shape :: "'a image \<Rightarrow> nat \<Rightarrow> nat \<Rightarrow> bool" where
  "has_shape img h w = (length img = h \<and> list_all (\<lambda>r. length r = w) img)"

text \<open>Python's slice bounds: a negative bound counts from the end, both are clamped.\<close>

definition norm_index :: "nat \<Rightarrow> int \<Rightarrow> nat" where
  "norm_index n i = (if i < 0 then nat (max 0 (int n + i)) else min n (nat i))"

definition pyslice :: "'b list \<Rightarrow> int \<Rightarrow> int \<Rightarrow> 'b list" where
  "pyslice xs a b =
     (let lo = norm_index (length xs) a; hi = norm_index (length xs) b
      in take (hi - lo) (drop lo xs))"

text \<open>\<open>img[r0:r1, c0:c1]\<close>\<close>

definition block :: "'a image \<Rightarrow> int \<Rightarrow> int \<Rightarrow> int \<Rightarrow> int \<Rightarrow> 'a image" where
  "block img r0 r1 c0 c1 = map (\<lambda>row. pyslice row c0 c1) (pyslice img r0 r1)"

text \<open>
  \<open>dst[r0:r1, c0:c1] = src\<close>. numpy raises ValueError when \<open>src\<close> cannot be broadcast
  to the shape of the target block; the tiles written by this program are cut by the same
  grid as the target, so only equal shapes are written.
\<close>

definition assign_block ::
  "'a image \<Rightarrow> int \<Rightarrow> int \<Rightarrow> int \<Rightarrow> int \<Rightarrow> 'a image \<Rightarrow> error + 'a image" where
  "assign_block dst r0 r1 c0 c1 src =
     (let rlo = norm_index (length dst) r0;
          rhi = max rlo (norm_index (length dst) r1);
          clo = norm_index (width dst) c0;
          chi = max clo (norm_index (width dst) c1)
      in if has_shape src (rhi - rlo) (chi - clo)
         then Inr (take rlo dst
                   @ map2 (\<lambda>drow srow. take clo drow @ srow @ drop chi drow)
                       (take (rhi - rlo) (drop rlo dst)) src
                   @ drop rhi dst)
         else Inl ValueError)"

definition zeros :: "nat \<Rightarrow> nat \<Rightarrow> ('a::zero) image" where
  "zeros h w = replicate h (replicate w 0)"

definition zeros_like :: "('a::zero) image \<Rightarrow> 'a image" where
  "zeros_like img = map (map (\<lambda>_. 0)) img"

definition pyrange :: "int \<Rightarrow> int list" where
  "pyrange n = map int [0..<nat n]"

text \<open>\<open>[(r, c) for r in range(gh) for c in range(gw)]\<close>\<close>

definition cells :: "int \<Rightarrow> int \<Rightarrow> (int \<times> int) list" where
  "cells gh gw = List.product (pyrange gh) (pyrange gw)"

text \<open>\<open>xs[i]\<close> for a non-negative index computed by the program.\<close>

definition item :: "'b list \<Rightarrow> nat \<Rightarrow> error + 'b" where
  "item xs i = (if i < length xs then Inr (xs ! i) else Inl IndexError)"

section \<open>Tile cutting\<close>

text \<open>
  Lines 85--92 of \<open>shuffle_image_puzzle\<close> (and lines 433--439 of the interactive
  \<open>shuffle\<close>): the tile size by floor division, then the row-major list of tiles.
  \<open>h // gh\<close> raises ZeroDivisionError for a zero grid dimension.
\<close>

definition tile_size :: "'a image \<Rightarrow> int \<times> int \<Rightarrow> error + int \<times> int" where
  "tile_size img grid_size =
     (let h = int (height img); w = int (width img); (gh, gw) = grid_size
      in if gh = 0 \<or> gw = 0 then Inl ZeroDivisionError
         else Inr (h div gh, w div gw))"

definition cut_tiles :: "'a image \<Rightarrow> int \<times> int \<Rightarrow> int \<times> int \<Rightarrow> 'a image list" where
  "cut_tiles img grid_size tsize =
     (let (gh, gw) = grid_size; (th, tw) = tsize
      in map (\<lambda>(i, j). block img (i * th) ((i + 1) * th) (j * tw) ((j + 1) * tw))
           (cells gh gw))"


section \<open>Shuffling\<close>

text \<open>
  \<open>random.Random(seed).shuffle(order)\<close> and \<open>np.random.default_rng().shuffle(order)\<close>
  both run the same loop over a list:
  \<^verbatim>\<open>for i in reversed(range(1, len(x))): j = randbelow(i + 1); x[i], x[j] = x[j], x[i]\<close>
  The generator is a parameter: \<open>seeded\<close> builds a generator state from a seed and
  \<open>randbelow g n\<close> draws a number and returns the next state. Its contract, a draw
  below \<open>n\<close>, is \<open>draws_below\<close>; a draw outside raises IndexError at the swap.
\<close>

record ('s, 'g) generator =
  seeded :: "'s \<Rightarrow> 'g"
  randbelow :: "'g \<Rightarrow> nat \<Rightarrow> nat \<times> 'g"

definition draws_below :: "('g \<Rightarrow> nat \<Rightarrow> nat \<times> 'g) \<Rightarrow> bool" where
  "draws_below rb = (\<forall>g n. 0 < n \<longrightarrow> fst (rb g n) < n)"

definition swap_items :: "'b list \<Rightarrow> nat \<Rightarrow> nat \<Rightarrow> error + 'b list" where
  "swap_items xs i j =
     (if i < length xs \<and> j < length xs then Inr (xs[i := xs ! j, j := xs ! i])
      else Inl IndexError)"

fun shuffle_loop ::
  "('g \<Rightarrow> nat \<Rightarrow> nat \<times> 'g) \<Rightarrow> nat \<Rightarrow> 'g \<Rightarrow> 'b list \<Rightarrow> error + 'b list \<times> 'g" where
  "shuffle_loop rb 0 g xs = Inr (xs, g)"
| "shuffle_loop rb (Suc k) g xs =
     (let (j, g') = rb g (Suc (Suc k))
      in case swap_items xs (Suc k) j of
           Inl e \<Rightarrow> Inl e
         | Inr xs' \<Rightarrow> shuffle_loop rb k g' xs')"

definition shuffle_list ::
  "('g \<Rightarrow> nat \<Rightarrow> nat \<times> 'g) \<Rightarrow> 'g \<Rightarrow> 'b list \<Rightarrow> error + 'b list \<times> 'g" where
  "shuffle_list rb g xs = shuffle_loop rb (length xs - 1) g xs"

text \<open>
  Lines 93--94: \<open>order = list(range(len(tiles))); random.Random(seed).shuffle(order)\<close>.
  The interpreter's module-level generator \<open>random\<close> is part of the world the function
  runs in; the function builds its own generator from the seed and returns the world as
  it found it.
\<close>

record 'g world =
  global_random :: 'g

definition generate_order ::
  "('s, 'g) generator \<Rightarrow> 'g world \<Rightarrow> nat \<Rightarrow> 's \<Rightarrow> (error + nat list) \<times> 'g world" where
  "generate_order gen wld n seed =
     (case shuffle_list (randbelow gen) (seeded gen seed) [0..<n] of
        Inl e \<Rightarrow> (Inl e, wld)
      | Inr (order, _) \<Rightarrow> (Inr order, wld))"

text \<open>Lines 95--99: the tiles written into a black canvas of the input's shape.\<close>

fun place_tiles ::
  "'a image \<Rightarrow> int \<times> int \<Rightarrow> 'a image list \<Rightarrow> nat list \<Rightarrow> (nat \<times> int \<times> int) list
     \<Rightarrow> error + 'a image" where
  "place_tiles canvas tsize tiles order [] = Inr canvas"
| "place_tiles canvas tsize tiles order ((idx, i, j) # rest) =
     (let (th, tw) = tsize
      in case item order idx of
           Inl e \<Rightarrow> Inl e
         | Inr t \<Rightarrow>
             (case item tiles t of
                Inl e \<Rightarrow> Inl e
              | Inr tile \<Rightarrow>
                  (case assign_block canvas (i * th) ((i + 1) * th) (j * tw) ((j + 1) * tw) tile of
                     Inl e \<Rightarrow> Inl e
                   | Inr canvas' \<Rightarrow> place_tiles canvas' tsize tiles order rest)))"

definition shuffle_image_puzzle ::
  "('s, 'g) generator \<Rightarrow> 'g world \<Rightarrow> ('a::zero) image \<Rightarrow> int \<times> int \<Rightarrow> 's
     \<Rightarrow> (error + 'a image \<times> nat list) \<times> 'g world" where
  "shuffle_image_puzzle gen wld img grid_size seed =
     (case tile_size img grid_size of
        Inl e \<Rightarrow> (Inl e, wld)
      | Inr tsize \<Rightarrow>
          (let tiles = cut_tiles img grid_size tsize
           in case generate_order gen wld (length tiles) seed of
                (Inl e, wld') \<Rightarrow> (Inl e, wld')
              | (Inr order, wld') \<Rightarrow>
                  (case place_tiles (zeros_like img) tsize tiles order
                          (List.enumerate 0 (cells (fst grid_size) (snd grid_size))) of
                     Inl e \<Rightarrow> (Inl e, wld')
                   | Inr shuffled \<Rightarrow> (Inr (shuffled, order), wld'))))"

section \<open>Floating-point arithmetic\<close>

text \<open>
  A Python float is an IEEE 754 binary64 number. A finite float is the rational number it
  denotes, and an arithmetic operation is the exact operation followed by \<open>fl\<close>, rounding
  to the nearest number with a significand of 53 bits, ties to the even significand.
  The exponent is not bounded here: the quotients and products of pixel counts that the
  program forms are far inside the range of binary64, where no overflow, underflow or
  subnormal number occurs.
\<close>

function bit_length :: "int \<Rightarrow> int" where
  "bit_length n = (if n \<le> 0 then 0 else 1 + bit_length (n div 2))"
  by pat_completeness auto
termination by (relation "measure nat") auto

declare bit_length.simps [simp del]

definition round_half_even :: "rat \<Rightarrow> int" where
  "round_half_even q =
     (let n = \<lfloor>q\<rfloor>; r = q - of_int n
      in if r < 1 / 2 then n else if 1 / 2 < r then n + 1 else if even n then n else n + 1)"

text \<open>The exponent \<open>e\<close> of a positive rational: \<open>2 ^ e \<le> q < 2 ^ (e + 1)\<close>.\<close>

definition binade :: "rat \<Rightarrow> int" where
  "binade q =
     (let (a, b) = quotient_of q;
          e = bit_length a - bit_length b
      in if 2 powi e \<le> q then e else e - 1)"

definition fl :: "rat \<Rightarrow> rat" where
  "fl q =
     (if q = 0 then 0
      else (let ulp = 2 powi (binade \<bar>q\<bar> - 52)
            in of_int (round_half_even (q / ulp)) * ulp))"

text \<open>
  \<open>float(n)\<close> of an integer, \<open>a / b\<close> of two integers (correctly rounded, the caller
  checks the divisor), \<open>a * b\<close> of two floats, and \<open>int(q)\<close>, which truncates towards zero.
\<close>

definition float_of_int :: "int \<Rightarrow> rat" where
  "float_of_int n = fl (of_int n)"

definition int_truediv :: "int \<Rightarrow> int \<Rightarrow> rat" where
  "int_truediv a b = fl (of_int a / of_int b)"

definition float_mul :: "rat \<Rightarrow> rat \<Rightarrow> rat" where
  "float_mul a b = fl (a * b)"

definition py_int :: "rat \<Rightarrow> int" where
  "py_int q = (if 0 \<le> q then \<lfloor>q\<rfloor> else \<lceil>q\<rceil>)"

text \<open>
  \<open>vx // wx\<close> of two floats, as CPython computes it: the exact remainder \<open>fmod\<close>, the
  quotient of the difference, moved down by one when remainder and divisor differ in sign,
  and snapped to the nearest integer.
\<close>

definition fmod :: "rat \<Rightarrow> rat \<Rightarrow> rat" where
  "fmod vx wx = vx - of_int (py_int (vx / wx)) * wx"

definition float_floordiv :: "rat \<Rightarrow> rat \<Rightarrow> error + rat" where
  "float_floordiv vx wx =
     (if wx = 0 then Inl ZeroDivisionError
      else
        (let m = fmod vx wx;
             d0 = fl (fl (vx - m) / wx);
             d = (if m \<noteq> 0 \<and> (wx < 0) \<noteq> (m < 0) then fl (d0 - 1) else d0);
             fd = of_int \<lfloor>d\<rfloor>
         in Inr (if 1 / 2 < d - fd then fd + 1 else fd)))"

section \<open>The interactive puzzle\<close>

text \<open>
  \<open>PuzzleShuffleGUI\<close>: the fields of the object that the game logic reads and writes.
  The widget variables \<open>difficulty\<close> and \<open>fill_box\<close> and the size of the image panel
  (\<open>img_panel.winfo_width()\<close>, \<open>winfo_height()\<close>) are state as well. The status label
  is kept as a message, the save button as its enabled flag. Calls into the rendering
  libraries (colour conversion, PIL resize and paste, Tk images, line drawing) are taken
  to succeed; of what they do only the four \<open>_displayed_*\<close> fields are kept.
\<close>

datatype outcome = Done | Raised error

datatype difficulty = Easy | Medium | Hard

definition DIFFICULTY_GRID :: "difficulty \<Rightarrow> int \<times> int" where
  "DIFFICULTY_GRID d = (case d of Easy \<Rightarrow> (3, 3) | Medium \<Rightarrow> (4, 4) | Hard \<Rightarrow> (5, 5))"

datatype status =
    SelectAnImage
  | FailedToLoad
  | Loaded
  | CouldNotCopy
  | DifficultyIs difficulty
  | LoadAnImageFirst
  | ShuffledClickTiles
  | ResetToOriginal
  | SelectedTile nat
  | Solved
  | SwappedTiles nat nat

record 'a gui =
  img :: "'a image option"
  orig_img :: "'a image option"
  grid_size :: "int \<times> int"
  difficulty :: difficulty
  fill_box :: bool
  tile_order :: "nat list option"
  selected :: "nat list"
  tiles :: "'a image list option"
  displayed_img_w :: int
  displayed_img_h :: int
  displayed_offset_x :: int
  displayed_offset_y :: int
  status :: status
  save_enabled :: bool
  panel_w :: int
  panel_h :: int

text \<open>\<open>__init__\<close>, for a panel of the given size.\<close>

definition init :: "int \<Rightarrow> int \<Rightarrow> 'a gui" where
  "init pw ph =
     \<lparr>img = None, orig_img = None, grid_size = (3, 3), difficulty = Medium, fill_box = False,
      tile_order = None, selected = [], tiles = None,
      displayed_img_w = 0, displayed_img_h = 0, displayed_offset_x = 0, displayed_offset_y = 0,
      status = SelectAnImage, save_enabled = False, panel_w = pw, panel_h = ph\<rparr>"

text \<open>
  \<open>cv2.resize(src, (nw, nh))\<close>: the interpolation is a parameter, a function that
  returns an image of \<open>nh\<close> rows and \<open>nw\<close> columns (\<open>resamples\<close>); OpenCV rejects an
  empty source and an empty target size.
\<close>

definition resamples :: "('a image \<Rightarrow> nat \<Rightarrow> nat \<Rightarrow> 'a image) \<Rightarrow> bool" where
  "resamples rs = (\<forall>src nw nh. has_shape (rs src nw nh) nh nw)"

definition cv2_resize ::
  "('a image \<Rightarrow> nat \<Rightarrow> nat \<Rightarrow> 'a image) \<Rightarrow> 'a image \<Rightarrow> int \<Rightarrow> int \<Rightarrow> error + 'a image" where
  "cv2_resize rs src nw nh =
     (if nw \<le> 0 \<or> nh \<le> 0 \<or> height src = 0 \<or> width src = 0 then Inl CvError
      else Inr (rs src (nat nw) (nat nh)))"

text \<open>
  \<open>_show_cv\<close>, lines 327--382: \<open>scale\<close> is a float, \<open>int(img_w * scale)\<close> converts
  \<open>img_w\<close> to a float, multiplies and truncates.
\<close>

definition show_cv :: "'a gui \<Rightarrow> 'a image option \<Rightarrow> bool \<Rightarrow> outcome \<times> 'a gui" where
  "show_cv s img_cv force_fit =
     (case img_cv of
        None \<Rightarrow> (Done, s)
      | Some im \<Rightarrow>
          (let pw = max (panel_w s) 200;
               ph = max (panel_h s) 200;
               img_w = int (width im);
               img_h = int (height im)
           in if img_w = 0 \<or> img_h = 0 then (Raised ZeroDivisionError, s)
              else
                (let scale =
                       (if fill_box s \<and> \<not> force_fit
                        then max (int_truediv pw img_w) (int_truediv ph img_h)
                        else min (int_truediv pw img_w) (int_truediv ph img_h));
                     new_w = py_int (float_mul (float_of_int img_w) scale);
                     new_h = py_int (float_mul (float_of_int img_h) scale);
                     offset_x = (pw - new_w) div 2;
                     offset_y = (ph - new_h) div 2
                 in (Done, s\<lparr>displayed_img_w := new_w, displayed_img_h := new_h,
                              displayed_offset_x := offset_x, displayed_offset_y := offset_y\<rparr>))))"

definition set_difficulty :: "'a gui \<Rightarrow> 'a gui" where
  "set_difficulty s =
     s\<lparr>grid_size := DIFFICULTY_GRID (difficulty s), status := DifficultyIs (difficulty s)\<rparr>"

text \<open>\<open>_assemble\<close>, lines 493--503.\<close>

definition assemble :: "('a::zero) gui \<Rightarrow> error + 'a image option" where
  "assemble s =
     (case (tiles s, tile_order s) of
        (Some ts, Some order) \<Rightarrow>
          (let (gh, gw) = grid_size s
           in case item ts 0 of
                Inl e \<Rightarrow> Inl e
              | Inr t0 \<Rightarrow>
                  (let th = int (height t0); tw = int (width t0)
                   in if th * gh < 0 \<or> tw * gw < 0 then Inl ValueError
                      else
                        (case place_tiles (zeros (nat (th * gh)) (nat (tw * gw))) (th, tw) ts order
                                (List.enumerate 0 (cells gh gw)) of
                           Inl e \<Rightarrow> Inl e
                         | Inr puzzle \<Rightarrow> Inr (Some puzzle))))
      | _ \<Rightarrow> Inr None)"

text \<open>
  \<open>_assemble_and_show\<close>, lines 518--523. \<open>_draw_grid\<close> paints separator lines on a copy
  of the puzzle, of the same shape, and \<open>_show_cv\<close> reads the shape only.
\<close>

definition assemble_and_show :: "('a::zero) gui \<Rightarrow> outcome \<times> 'a gui" where
  "assemble_and_show s =
     (case assemble s of
        Inl e \<Rightarrow> (Raised e, s)
      | Inr None \<Rightarrow> (Done, s)
      | Inr (Some puzzle) \<Rightarrow> show_cv s (Some puzzle) True)"

text \<open>
  \<open>shuffle\<close>, lines 391--447. \<open>np.random.default_rng()\<close> is a generator built from
  fresh entropy of the operating system: the entropy is an input of the call.
  \<open>fit_scaled\<close> is \<open>(int(w * scale), int(h * scale))\<close> of lines 428--430 and
  \<open>fill_scaled\<close> is \<open>(scaled_w, scaled_h)\<close> of lines 407--409; the caller checks that
  \<open>w\<close> and \<open>h\<close> are not zero.
\<close>

definition fit_scaled :: "int \<Rightarrow> int \<Rightarrow> int \<times> int" where
  "fit_scaled w h =
     (let scale = min (min (int_truediv 700 w) (int_truediv 650 h)) 1
      in (py_int (float_mul (float_of_int w) scale), py_int (float_mul (float_of_int h) scale)))"

definition fill_scaled :: "int \<Rightarrow> int \<Rightarrow> int \<Rightarrow> int \<Rightarrow> int \<times> int" where
  "fill_scaled pw ph w h =
     (let scale_fill = max (int_truediv pw w) (int_truediv ph h)
      in (py_int (float_mul (float_of_int w) scale_fill),
          py_int (float_mul (float_of_int h) scale_fill)))"

definition working_image ::
  "('a image \<Rightarrow> nat \<Rightarrow> nat \<Rightarrow> 'a image) \<Rightarrow> 'a gui \<Rightarrow> 'a image \<Rightarrow> error + 'a image" where
  "working_image rs s orig =
     (let (gh, gw) = grid_size s;
          h = int (height orig);
          w = int (width orig)
      in if w = 0 \<or> h = 0 then Inl ZeroDivisionError
         else if fill_box s then
           (let pw = max (panel_w s) 200;
                ph = max (panel_h s) 200;
                (scaled_w, scaled_h) = fill_scaled pw ph w h
            in case cv2_resize rs orig scaled_w scaled_h of
                 Inl e \<Rightarrow> Inl e
               | Inr img_scaled \<Rightarrow>
                   (let crop_x = max 0 ((scaled_w - pw) div 2);
                        crop_y = max 0 ((scaled_h - ph) div 2);
                        img_cropped = block img_scaled crop_y (crop_y + ph) crop_x (crop_x + pw);
                        ch = int (height img_cropped);
                        cw = int (width img_cropped)
                    in if gw = 0 \<or> gh = 0 then Inl ZeroDivisionError
                       else cv2_resize rs img_cropped ((cw div gw) * gw) ((ch div gh) * gh)))
         else if gw = 0 \<or> gh = 0 then Inl ZeroDivisionError
         else
           (let (scaled_w, scaled_h) = fit_scaled w h;
                nw = scaled_w div gw * gw;
                nh = scaled_h div gh * gh
            in cv2_resize rs orig nw nh))"

definition shuffle ::
  "('s, 'g) generator \<Rightarrow> ('a image \<Rightarrow> nat \<Rightarrow> nat \<Rightarrow> 'a image) \<Rightarrow> ('a::zero) gui \<Rightarrow> bool \<Rightarrow> 's
     \<Rightarrow> outcome \<times> 'a gui" where
  "shuffle np rs s silent entropy =
     (case orig_img s of
        None \<Rightarrow> (Done, if silent then s else s\<lparr>status := LoadAnImageFirst\<rparr>)
      | Some orig \<Rightarrow>
          (let s1 = set_difficulty s
           in case working_image rs s1 orig of
                Inl e \<Rightarrow> (Raised e, s1)
              | Inr wimg \<Rightarrow>
                  (let s2 = s1\<lparr>img := Some wimg\<rparr>
                   in case tile_size wimg (grid_size s2) of
                        Inl e \<Rightarrow> (Raised e, s2)
                      | Inr tsize \<Rightarrow>
                          (let ts = cut_tiles wimg (grid_size s2) tsize;
                               s3 = s2\<lparr>tiles := Some ts\<rparr>
                           in case shuffle_list (randbelow np) (seeded np entropy) [0..<length ts] of
                                Inl e \<Rightarrow> (Raised e, s3)
                              | Inr (order, _) \<Rightarrow>
                                  (case assemble_and_show (s3\<lparr>tile_order := Some order\<rparr>) of
                                     (Raised e, s4) \<Rightarrow> (Raised e, s4)
                                   | (Done, s4) \<Rightarrow>
                                       (let s5 = s4\<lparr>save_enabled := True\<rparr>
                                        in (Done, if silent then s5
                                                  else s5\<lparr>status := ShuffledClickTiles\<rparr>)))))))"

text \<open>\<open>reset\<close>, lines 449--455.\<close>

definition reset :: "('a::zero) gui \<Rightarrow> outcome \<times> 'a gui" where
  "reset s =
     (case tiles s of
        None \<Rightarrow> (Done, s)
      | Some ts \<Rightarrow>
          (case assemble_and_show (s\<lparr>tile_order := Some [0..<length ts]\<rparr>) of
             (Raised e, s1) \<Rightarrow> (Raised e, s1)
           | (Done, s1) \<Rightarrow> (Done, s1\<lparr>status := ResetToOriginal, save_enabled := False\<rparr>)))"

text \<open>
  \<open>on_click\<close>, lines 457--489. Lines 464--473 map the pointer position to a grid cell:
  \<open>click_cell\<close> returns the cell, or \<open>None\<close> where the handler returns early.
  \<open>cell_index v d g\<close> is \<open>int(v // (d / g))\<close> of lines 470 and 471: two integers are
  divided into a float, and the integer \<open>v\<close>, converted to a float, is floor-divided by it.
\<close>

definition cell_index :: "int \<Rightarrow> int \<Rightarrow> int \<Rightarrow> error + int" where
  "cell_index v d g =
     (if g = 0 then Inl ZeroDivisionError
      else (case float_floordiv (float_of_int v) (int_truediv d g) of
              Inl e \<Rightarrow> Inl e
            | Inr q \<Rightarrow> Inr (py_int q)))"

definition click_cell :: "'a gui \<Rightarrow> int \<Rightarrow> int \<Rightarrow> error + (int \<times> int) option" where
  "click_cell s event_x event_y =
     (let x = event_x - displayed_offset_x s;
          y = event_y - displayed_offset_y s
      in if x < 0 \<or> y < 0 \<or> x \<ge> displayed_img_w s \<or> y \<ge> displayed_img_h s then Inr None
         else
           (let (gh, gw) = grid_size s
            in case cell_index x (displayed_img_w s) gw of
                 Inl e \<Rightarrow> Inl e
               | Inr col \<Rightarrow>
                   (case cell_index y (displayed_img_h s) gh of
                      Inl e \<Rightarrow> Inl e
                    | Inr row \<Rightarrow>
                        if \<not> (0 \<le> col \<and> col < gw \<and> 0 \<le> row \<and> row < gh) then Inr None
                        else Inr (Some (row, col)))))"

definition is_identity :: "nat list \<Rightarrow> bool" where
  "is_identity order = (order = [0..<length order])"

definition on_click :: "('a::zero) gui \<Rightarrow> int \<Rightarrow> int \<Rightarrow> outcome \<times> 'a gui" where
  "on_click s event_x event_y =
     (case (tiles s, tile_order s) of
        (Some ts, Some order) \<Rightarrow>
          (case click_cell s event_x event_y of
             Inl e \<Rightarrow> (Raised e, s)
           | Inr None \<Rightarrow> (Done, s)
           | Inr (Some (row, col)) \<Rightarrow>
               (let idx = nat (row * snd (grid_size s) + col)
                in if selected s = []
                   then (Done, s\<lparr>selected := [idx], status := SelectedTile (idx + 1)\<rparr>)
                   else
                     (let a = last (selected s);
                          s1 = s\<lparr>selected := butlast (selected s)\<rparr>
                      in if a \<noteq> idx then
                           (case swap_items order a idx of
                              Inl e \<Rightarrow> (Raised e, s1)
                            | Inr order' \<Rightarrow>
                                (case assemble_and_show (s1\<lparr>tile_order := Some order'\<rparr>) of
                                   (Raised e, s2) \<Rightarrow> (Raised e, s2)
                                 | (Done, s2) \<Rightarrow>
                                     (if is_identity order'
                                      then (Done, s2\<lparr>status := Solved, save_enabled := True\<rparr>)
                                      else (Done, s2\<lparr>status := SwappedTiles (a + 1) (idx + 1)\<rparr>))))
                         else (Done, s1))))
      | _ \<Rightarrow> (Done, s))"

text \<open>\<open>open_image\<close>, lines 295--325: what the file dialog and \<open>cv2.imread\<close> gave.\<close>

datatype 'a opened = Cancelled | Unreadable | Decoded "'a image" bool

definition open_image :: "'a gui \<Rightarrow> 'a opened \<Rightarrow> outcome \<times> 'a gui" where
  "open_image s file =
     (case file of
        Cancelled \<Rightarrow> (Done, s)
      | Unreadable \<Rightarrow> (Done, s\<lparr>status := FailedToLoad\<rparr>)
      | Decoded im copied \<Rightarrow>
          (case show_cv (s\<lparr>orig_img := Some im, img := Some im, tiles := None,
                            tile_order := None, save_enabled := False\<rparr>) (Some im) False of
             (Raised e, s1) \<Rightarrow> (Raised e, s1)
           | (Done, s1) \<Rightarrow> (Done, s1\<lparr>status := (if copied then Loaded else CouldNotCopy)\<rparr>)))"

text \<open>\<open>_resize_update\<close>, lines 537--544, after the panel took a new size.\<close>

definition resize_update :: "('a::zero) gui \<Rightarrow> int \<Rightarrow> int \<Rightarrow> outcome \<times> 'a gui" where
  "resize_update s pw ph =
     (let s1 = s\<lparr>panel_w := pw, panel_h := ph\<rparr>
      in if tiles s1 \<noteq> None \<and> tile_order s1 \<noteq> None then assemble_and_show s1
         else if img s1 \<noteq> None then show_cv s1 (img s1) False
         else (Done, s1))"

text \<open>\<open>_refresh_display\<close>, lines 546--552, after the Fill Box checkbox took a new value.\<close>

definition refresh_display ::
  "('s, 'g) generator \<Rightarrow> ('a image \<Rightarrow> nat \<Rightarrow> nat \<Rightarrow> 'a image) \<Rightarrow> ('a::zero) gui \<Rightarrow> bool \<Rightarrow> 's
     \<Rightarrow> outcome \<times> 'a gui" where
  "refresh_display np rs s checked entropy =
     (let s1 = s\<lparr>fill_box := checked\<rparr>
      in if tiles s1 \<noteq> None \<and> tile_order s1 \<noteq> None then shuffle np rs s1 True entropy
         else if orig_img s1 \<noteq> None then show_cv s1 (orig_img s1) False
         else (Done, s1))"

text \<open>
  The events of the window, each run to completion; a handler that raises leaves the
  object as it was at the raise and the event loop goes on.
\<close>

datatype ('a, 's) event =
    OpenImage "'a opened"
  | SelectDifficulty difficulty
  | FillBox bool 's
  | Shuffle 's
  | Reset
  | Click int int
  | Resize int int

definition handle ::
  "('s, 'g) generator \<Rightarrow> ('a image \<Rightarrow> nat \<Rightarrow> nat \<Rightarrow> 'a image) \<Rightarrow> ('a::zero) gui \<Rightarrow> ('a, 's) event
     \<Rightarrow> outcome \<times> 'a gui" where
  "handle np rs s ev =
     (case ev of
        OpenImage file \<Rightarrow> open_image s file
      | SelectDifficulty d \<Rightarrow> (Done, set_difficulty (s\<lparr>difficulty := d\<rparr>))
      | FillBox checked entropy \<Rightarrow> refresh_display np rs s checked entropy
      | Shuffle entropy \<Rightarrow> shuffle np rs s False entropy
      | Reset \<Rightarrow> reset s
      | Click x y \<Rightarrow> on_click s x y
      | Resize pw ph \<Rightarrow> resize_update s pw ph)"

definition run ::
  "('s, 'g) generator \<Rightarrow> ('a image \<Rightarrow> nat \<Rightarrow> nat \<Rightarrow> 'a image) \<Rightarrow> ('a::zero) gui \<Rightarrow> ('a, 's) event list
     \<Rightarrow> 'a gui" where
  "run np rs s evs = foldl (\<lambda>s ev. snd (handle np rs s ev)) s evs"

section \<open>Concrete collaborators to run the model on\<close>

text \<open>A small linear congruential generator and nearest-neighbour resampling.\<close>

definition lcg :: "(int, int) generator" where
  "lcg = \<lparr>seeded = (\<lambda>s. s mod 65537),
          randbelow = (\<lambda>g n. (nat (g mod int n), (g * 75 + 74) mod 65537))\<rparr>"

definition nearest :: "'a image \<Rightarrow> nat \<Rightarrow> nat \<Rightarrow> 'a image" where
  "nearest src nw nh =
     map (\<lambda>r. map (\<lambda>c. src ! (r * height src div nh) ! (c * width src div nw)) [0..<nw]) [0..<nh]"

section \<open>Notions used in the proofs\<close>

text \<open>
  An entry \<open>(idx, (i, j))\<close> of the enumerated cell list, and whether some entry of a list
  writes the tile block that holds pixel \<open>(r, c)\<close>.
\<close>

definition entry_ok :: "nat \<Rightarrow> nat \<Rightarrow> nat \<times> int \<times> int \<Rightarrow> bool" where
  "entry_ok gh gw e = (case e of (idx, i, j) \<Rightarrow>
      0 \<le> i \<and> i < int gh \<and> 0 \<le> j \<and> j < int gw \<and> idx = nat (i * int gw + j))"

definition covers :: "nat \<Rightarrow> nat \<Rightarrow> nat \<Rightarrow> nat \<Rightarrow> (nat \<times> int \<times> int) list \<Rightarrow> bool" where
  "covers th tw r c ps = (\<exists>e \<in> set ps. fst (snd e) = int (r div th) \<and> snd (snd e) = int (c div tw))"

section \<open>Invariants of the interactive puzzle\<close>

text \<open>A list of tile indices that is a bijection on \<open>{0..<n}\<close>.\<close>

definition bijective_order :: "nat list \<Rightarrow> nat \<Rightarrow> bool" where
  "bijective_order p n = (length p = n \<and> distinct p \<and> set p = {0..<n})"

text \<open>
  The claim of C5 about one state: the permutation, when there is one, is a bijection
  on the positions of the current grid.
\<close>

definition order_ok :: "'a gui \<Rightarrow> bool" where
  "order_ok s =
     (case tile_order s of
        None \<Rightarrow> True
      | Some p \<Rightarrow> (let (gh, gw) = grid_size s in bijective_order p (nat (gh * gw))))"

text \<open>
  The weaker fact that survives a change of difficulty: the permutation is a bijection
  on the indices of the tile list.
\<close>

definition order_matches_tiles :: "'a gui \<Rightarrow> bool" where
  "order_matches_tiles s =
     (case (tiles s, tile_order s) of
        (None, None) \<Rightarrow> True
      | (Some ts, Some p) \<Rightarrow> bijective_order p (length ts)
      | _ \<Rightarrow> False)"

text \<open>
  The invariant behind C5: tiles and permutation are set together, for the grid of the
  selected difficulty.
\<close>

definition consistent :: "'a gui \<Rightarrow> bool" where
  "consistent s =
     (case (tiles s, tile_order s) of
        (None, None) \<Rightarrow> True
      | (Some ts, Some p) \<Rightarrow>
          grid_size s = DIFFICULTY_GRID (difficulty s) \<and>
          (let (gh, gw) = grid_size s in length ts = nat (gh * gw)) \<and>
          bijective_order p (length ts)
      | _ \<Rightarrow> False)"


fun selects_difficulty :: "('a, 's) event \<Rightarrow> bool" where
  "selects_difficulty (SelectDifficulty d) = True"
| "selects_difficulty _ = False"

section \<open>A puzzle to run the model on\<close>

text \<open>
  An 8 by 8 image whose pixels are numbered row by row, opened in a 400 by 300 panel and
  shuffled at the default difficulty.
\<close>

definition demo_image :: "nat image" where
  "demo_image = map (\<lambda>r. map (\<lambda>c. r * 8 + c) [0..<8]) [0..<8]"

definition demo :: "nat gui" where
  "demo =
     \<lparr>img = Some demo_image, orig_img = Some demo_image, grid_size = (4, 4),
      difficulty = Medium, fill_box = False,
      tile_order = Some [11, 2, 6, 0, 5, 8, 15, 4, 12, 3, 13, 7, 9, 1, 14, 10],
      selected = [], tiles = Some (cut_tiles demo_image (4, 4) (2, 2)),
      displayed_img_w = 300, displayed_img_h = 300,
      displayed_offset_x = 50, displayed_offset_y = 0,
      status = ShuffledClickTiles, save_enabled = True, panel_w = 400, panel_h = 300\<rparr>"

text \<open>
  What the player sees of a state: the message of the status label, the permutation, the
  grid and the pending selection.
\<close>

definition report :: "'a gui \<Rightarrow> status \<times> nat list option \<times> (int \<times> int) \<times> nat list" where
  "report s = (status s, tile_order s, grid_size s, selected s)"

text \<open>
  A session in which the difficulty is changed while a puzzle is on the screen: the image
  is opened and shuffled at the default difficulty (4 by 4), reset, the Easy radio button
  is pressed, and the cells (0, 0) and (0, 1) of the 3 by 3 grid are exchanged twice.
\<close>

definition stale_grid_events :: "(nat, int) event list" where
  "stale_grid_events =
     [OpenImage (Decoded demo_image True), Shuffle 42, Reset, SelectDifficulty Easy,
      Click 60 10, Click 160 10, Click 60 10, Click 160 10]"

text \<open>
  How one event may change the permutation: not at all, by discarding it (a newly opened
  image), by replacing it with a whole bijection (shuffle, reset), or by exchanging two of
  its entries (the second click of a pair).
\<close>

definition order_change :: "nat list option \<Rightarrow> nat list option \<Rightarrow> bool" where
  "order_change old new =
     (new = old \<or> new = None \<or>
      (\<exists>order. new = Some order \<and> bijective_order order (length order)) \<or>
      (\<exists>p a b. old = Some p \<and> a < length p \<and> b < length p \<and>
                new = Some (p[a := p ! b, b := p ! a])))"

section \<open>Facts about slices, blocks and tiles\<close>


lemma pyslice_nonneg:
  "0 \<le> a \<Longrightarrow> a \<le> b \<Longrightarrow> pyslice xs a b = take (nat b - nat a) (drop (nat a) xs)"
  by (auto simp: pyslice_def norm_index_def Let_def min_def)




lemma length_cells: "length (cells gh gw) = nat gh * nat gw"
  by (simp add: cells_def pyrange_def)





section \<open>Writing blocks and placing tiles\<close>


lemma has_shapeD:
  "has_shape im h w \<Longrightarrow> length im = h"
  "has_shape im h w \<Longrightarrow> r < h \<Longrightarrow> length (im ! r) = w"
  by (auto simp: has_shape_def list_all_length)

lemma has_shape_width: "has_shape im h w \<Longrightarrow> 0 < h \<Longrightarrow> width im = w"
  by (cases im) (auto simp: has_shape_def width_def)

lemma has_shape_height: "has_shape im h w \<Longrightarrow> height im = h"
  by (simp add: has_shape_def height_def)

lemma norm_index_nat: "n \<le> k \<Longrightarrow> norm_index k (int n) = n"
  by (simp add: norm_index_def)

lemma nth_append3:
  "length A = a \<Longrightarrow> length B = b \<Longrightarrow>
   (A @ B @ C) ! r = (if r < a then A ! r else if r < a + b then B ! (r - a) else C ! (r - a - b))"
  by (auto simp: nth_append)

lemma assign_block_nat:
  assumes "has_shape dst H W" "has_shape src h w" "r0 + h \<le> H" "c0 + w \<le> W" "0 < h"
  shows "assign_block dst (int r0) (int (r0 + h)) (int c0) (int (c0 + w)) src =
         Inr (take r0 dst
              @ map2 (\<lambda>drow srow. take c0 drow @ srow @ drop (c0 + w) drow) (take h (drop r0 dst)) src
              @ drop (r0 + h) dst)"
proof -
  have H: "0 < H" using assms by simp
  have l: "length dst = H" "width dst = W"
    using assms(1) H by (simp_all add: has_shapeD has_shape_width)
  have n: "norm_index H (int r0) = r0" "norm_index H (int (r0 + h)) = r0 + h"
    "norm_index W (int c0) = c0" "norm_index W (int (c0 + w)) = c0 + w"
    using assms norm_index_nat[of r0 H] norm_index_nat[of "r0 + h" H]
      norm_index_nat[of c0 W] norm_index_nat[of "c0 + w" W] by linarith+
  show ?thesis
    unfolding assign_block_def l Let_def n using assms(2) by (simp add: max_def)
qed

lemma assign_block_nth:
  assumes "has_shape dst H W" "has_shape src h w" "r0 + h \<le> H" "c0 + w \<le> W" "0 < h"
  shows "\<exists>res. assign_block dst (int r0) (int (r0 + h)) (int c0) (int (c0 + w)) src = Inr res \<and>
           has_shape res H W \<and>
           (\<forall>r c. r < H \<longrightarrow> c < W \<longrightarrow>
              res ! r ! c = (if r0 \<le> r \<and> r < r0 + h \<and> c0 \<le> c \<and> c < c0 + w
                             then src ! (r - r0) ! (c - c0) else dst ! r ! c))"
proof -
  let ?f = "\<lambda>drow srow. take c0 drow @ srow @ drop (c0 + w) drow"
  let ?B = "map2 ?f (take h (drop r0 dst)) src"
  let ?res = "take r0 dst @ ?B @ drop (r0 + h) dst"
  have ld: "length dst = H" and ls: "length src = h"
    using assms by (simp_all add: has_shapeD)
  have rowd: "\<And>r. r < H \<Longrightarrow> length (dst ! r) = W" using assms(1) by (simp add: has_shapeD)
  have rows: "\<And>r. r < h \<Longrightarrow> length (src ! r) = w" using assms(2) by (simp add: has_shapeD)
  have lB: "length ?B = h" using ld ls assms by simp
  have lA: "length (take r0 dst) = r0" using ld assms by simp
  have lres: "length ?res = H" using ld ls assms by simp
  have Bn: "\<And>k. k < h \<Longrightarrow> ?B ! k = ?f (dst ! (r0 + k)) (src ! k)"
    using ld ls assms by simp
  have resn: "\<And>r. r < H \<Longrightarrow> ?res ! r =
       (if r0 \<le> r \<and> r < r0 + h then ?f (dst ! r) (src ! (r - r0)) else dst ! r)"
  proof -
    fix r assume r: "r < H"
    have d: "r0 + h \<le> r \<Longrightarrow> drop (r0 + h) dst ! (r - r0 - h) = dst ! r"
      using ld r by simp
    show "?res ! r = (if r0 \<le> r \<and> r < r0 + h then ?f (dst ! r) (src ! (r - r0)) else dst ! r)"
      unfolding nth_append3[OF lA lB]
      using Bn[of "r - r0"] d ld r by (cases "r < r0"; cases "r < r0 + h"; simp)
  qed
  have shape: "has_shape ?res H W"
    unfolding has_shape_def list_all_length
  proof (intro conjI allI impI)
    show "length ?res = H" by (rule lres)
    fix r assume "r < length ?res"
    then have r: "r < H" using lres by simp
    show "length (?res ! r) = W"
      unfolding resn[OF r] using rowd[OF r] rows[of "r - r0"] assms by (auto simp: min_def)
  qed
  have px: "\<forall>r c. r < H \<longrightarrow> c < W \<longrightarrow>
              ?res ! r ! c = (if r0 \<le> r \<and> r < r0 + h \<and> c0 \<le> c \<and> c < c0 + w
                             then src ! (r - r0) ! (c - c0) else dst ! r ! c)"
  proof (intro allI impI)
    fix r c assume r: "r < H" and c: "c < W"
    show "?res ! r ! c = (if r0 \<le> r \<and> r < r0 + h \<and> c0 \<le> c \<and> c < c0 + w
                             then src ! (r - r0) ! (c - c0) else dst ! r ! c)"
      unfolding resn[OF r] using rowd[OF r] rows[of "r - r0"] assms c
      by (auto simp: nth_append min_def)
  qed
  from assign_block_nat[OF assms] shape px show ?thesis by blast
qed


lemma div_block:
  fixes i r th :: nat
  assumes "0 < th"
  shows "(i * th \<le> r \<and> r < i * th + th) = (r div th = i)"
proof
  assume "i * th \<le> r \<and> r < i * th + th"
  then show "r div th = i"
    by (intro div_nat_eqI) (simp_all add: mult.commute)
next
  assume "r div th = i"
  then have "i * th = th * (r div th)" by simp
  moreover have "th * (r div th) \<le> r" by simp
  moreover have "r < th * (r div th) + th"
    using assms by (metis dividend_less_times_div mult.commute add.commute)
  ultimately show "i * th \<le> r \<and> r < i * th + th" by (simp add: mult.commute)
qed

lemma mod_block:
  fixes i r th :: nat
  shows "r div th = i \<Longrightarrow> r - i * th = r mod th"
  by (metis minus_mult_div_eq_mod mult.commute)



lemma place_tiles_nth:
  assumes th: "0 < th" and tw: "0 < tw"
    and fit: "gh * th \<le> H" "gw * tw \<le> W"
    and lo: "length order = gh * gw"
    and oT: "\<forall>k < length order. order ! k < length T"
    and sT: "\<forall>t \<in> set T. has_shape t th tw"
  shows "has_shape canvas H W \<Longrightarrow> \<forall>e \<in> set ps. entry_ok gh gw e \<Longrightarrow>
     \<exists>res. place_tiles canvas (int th, int tw) T order ps = Inr res \<and> has_shape res H W \<and>
       (\<forall>r c. r < H \<longrightarrow> c < W \<longrightarrow>
          res ! r ! c = (if covers th tw r c ps
                         then T ! (order ! ((r div th) * gw + c div tw)) ! (r mod th) ! (c mod tw)
                         else canvas ! r ! c))"
proof (induction ps arbitrary: canvas)
  case Nil
  then show ?case by (simp add: covers_def)
next
  case (Cons e ps)
  obtain idx i j where e: "e = (idx, i, j)" by (cases e)
  from Cons.prems(2) e have ok: "0 \<le> i" "i < int gh" "0 \<le> j" "j < int gw" "idx = nat (i * int gw + j)"
    by (auto simp: entry_ok_def)
  define i' j' where "i' = nat i" and "j' = nat j"
  have ij: "i = int i'" "j = int j'" "i' < gh" "j' < gw"
    using ok by (auto simp: i'_def j'_def)
  have idx: "idx = i' * gw + j'"
    using ok(5) unfolding ij by (metis nat_int of_nat_add of_nat_mult)
  have "i' * gw + j' < gh * gw"
  proof -
    have "i' * gw + j' < i' * gw + gw" using ij by simp
    also have "\<dots> = (i' + 1) * gw" by simp
    also have "\<dots> \<le> gh * gw" using ij by (intro mult_le_mono1) simp
    finally show ?thesis .
  qed
  then have idxl: "idx < length order" using idx lo by simp
  then have tl: "order ! idx < length T" using oT by simp
  define tile where "tile = T ! (order ! idx)"
  have ts: "has_shape tile th tw" using sT tl by (simp add: tile_def)
  have b1: "i' * th + th \<le> H"
  proof -
    have "i' * th + th = (i' + 1) * th" by simp
    also have "\<dots> \<le> gh * th" using ij by (intro mult_le_mono1) simp
    finally show ?thesis using fit by simp
  qed
  have b2: "j' * tw + tw \<le> W"
  proof -
    have "j' * tw + tw = (j' + 1) * tw" by simp
    also have "\<dots> \<le> gw * tw" using ij by (intro mult_le_mono1) simp
    finally show ?thesis using fit by simp
  qed
  have c1: "i * int th = int (i' * th)" "(i + 1) * int th = int (i' * th + th)"
    "j * int tw = int (j' * tw)" "(j + 1) * int tw = int (j' * tw + tw)"
    unfolding ij by (simp_all add: algebra_simps)
  from assign_block_nth[OF Cons.prems(1) ts b1 b2 th] obtain canvas' where
    a: "assign_block canvas (int (i' * th)) (int (i' * th + th)) (int (j' * tw)) (int (j' * tw + tw)) tile = Inr canvas'"
    and sh: "has_shape canvas' H W"
    and px: "\<And>r c. r < H \<Longrightarrow> c < W \<Longrightarrow> canvas' ! r ! c =
        (if i' * th \<le> r \<and> r < i' * th + th \<and> j' * tw \<le> c \<and> c < j' * tw + tw
         then tile ! (r - i' * th) ! (c - j' * tw) else canvas ! r ! c)"
    by blast
  from Cons.prems(2) have "\<forall>e \<in> set ps. entry_ok gh gw e" by simp
  from Cons.IH[OF sh this] obtain res where
    p: "place_tiles canvas' (int th, int tw) T order ps = Inr res"
    and rs: "has_shape res H W"
    and rp: "\<And>r c. r < H \<Longrightarrow> c < W \<Longrightarrow> res ! r ! c =
        (if covers th tw r c ps
         then T ! (order ! ((r div th) * gw + c div tw)) ! (r mod th) ! (c mod tw)
         else canvas' ! r ! c)"
    by blast
  have step: "place_tiles canvas (int th, int tw) T order (e # ps) = Inr res"
    unfolding e using idxl tl a p by (simp add: item_def c1 tile_def)
  have "\<And>r c. r < H \<Longrightarrow> c < W \<Longrightarrow> res ! r ! c =
        (if covers th tw r c (e # ps)
         then T ! (order ! ((r div th) * gw + c div tw)) ! (r mod th) ! (c mod tw)
         else canvas ! r ! c)"
  proof -
    fix r c assume r: "r < H" and c: "c < W"
    define inb where "inb = (r div th = i' \<and> c div tw = j')"
    have hd: "(i' * th \<le> r \<and> r < i' * th + th \<and> j' * tw \<le> c \<and> c < j' * tw + tw) = inb"
      unfolding inb_def using div_block[OF th, of i' r] div_block[OF tw, of j' c] by blast
    have cv: "covers th tw r c (e # ps) = (inb \<or> covers th tw r c ps)"
      unfolding covers_def e ij inb_def by auto
    have px': "canvas' ! r ! c = (if inb then tile ! (r - i' * th) ! (c - j' * tw) else canvas ! r ! c)"
      using px[OF r c] unfolding hd .
    have tl': "inb \<Longrightarrow> tile ! (r - i' * th) ! (c - j' * tw)
                 = T ! (order ! ((r div th) * gw + c div tw)) ! (r mod th) ! (c mod tw)"
      unfolding inb_def tile_def idx using mod_block[of r th i'] mod_block[of c tw j'] by simp
    show "res ! r ! c =
        (if covers th tw r c (e # ps)
         then T ! (order ! ((r div th) * gw + c div tw)) ! (r mod th) ! (c mod tw)
         else canvas ! r ! c)"
      unfolding cv rp[OF r c] px' using tl' by (cases inb; cases "covers th tw r c ps"; simp)
  qed
  with step rs show ?case by blast
qed

section \<open>The enumerated cells and the tiles cut from an image\<close>


lemma pyrange_int: "pyrange (int n) = map int [0..<n]"
  by (simp add: pyrange_def)

lemma cells_nth:
  assumes "k < gh * gw"
  shows "cells (int gh) (int gw) ! k = (int (k div gw), int (k mod gw))"
proof -
  have gw: "0 < gw" using assms by (cases gw) auto
  have "k div gw < gh" using assms gw by (simp add: less_mult_imp_div_less)
  moreover have "k mod gw < gw" using gw by simp
  ultimately show ?thesis
    using assms by (simp add: cells_def pyrange_int product_nth)
qed

lemma length_cells_nat: "length (cells (int gh) (int gw)) = gh * gw"
  by (simp add: cells_def pyrange_int)

lemma enumerate_cells_ok:
  "\<forall>e \<in> set (List.enumerate 0 (cells (int gh) (int gw))). entry_ok gh gw e"
proof
  fix e assume e: "e \<in> set (List.enumerate 0 (cells (int gh) (int gw)))"
  obtain k i j where ee: "e = (k, i, j)" by (cases e)
  from e ee have k: "k < gh * gw" and c: "cells (int gh) (int gw) ! k = (i, j)"
    by (auto simp: in_set_enumerate_eq length_cells_nat)
  have gw: "0 < gw" using k by (cases gw) auto
  from c cells_nth[OF k] have ij: "i = int (k div gw)" "j = int (k mod gw)" by simp_all
  have "k div gw < gh" using k gw by (simp add: less_mult_imp_div_less)
  moreover have "k mod gw < gw" using gw by simp
  moreover have "nat (i * int gw + j) = k"
    unfolding ij by (metis nat_int of_nat_add of_nat_mult div_mult_mod_eq)
  ultimately show "entry_ok gh gw e"
    unfolding ee entry_ok_def ij by simp
qed

lemma covers_enumerate_cells:
  assumes "0 < th" "0 < tw"
  shows "covers th tw r c (List.enumerate 0 (cells (int gh) (int gw))) = (r < gh * th \<and> c < gw * tw)"
proof
  assume "covers th tw r c (List.enumerate 0 (cells (int gh) (int gw)))"
  then obtain e where e: "e \<in> set (List.enumerate 0 (cells (int gh) (int gw)))"
    and m: "fst (snd e) = int (r div th)" "snd (snd e) = int (c div tw)"
    by (auto simp: covers_def)
  from enumerate_cells_ok e have "entry_ok gh gw e" by blast
  with m have "r div th < gh" "c div tw < gw"
    by (auto simp: entry_ok_def split: prod.splits)
  then show "r < gh * th \<and> c < gw * tw"
    using assms by (simp add: div_less_iff_less_mult)
next
  assume a: "r < gh * th \<and> c < gw * tw"
  then have d: "r div th < gh" "c div tw < gw"
    using assms by (simp_all add: div_less_iff_less_mult)
  define k where "k = (r div th) * gw + c div tw"
  have "k < (r div th) * gw + gw" using d by (simp add: k_def)
  also have "\<dots> = (r div th + 1) * gw" by simp
  also have "\<dots> \<le> gh * gw" using d by (intro mult_le_mono1) simp
  finally have k: "k < gh * gw" .
  have "k div gw = r div th" "k mod gw = c div tw"
    using d by (simp_all add: k_def)
  with cells_nth[OF k] have c: "cells (int gh) (int gw) ! k = (int (r div th), int (c div tw))"
    by simp
  have "(k, int (r div th), int (c div tw)) \<in> set (List.enumerate 0 (cells (int gh) (int gw)))"
    using k c by (simp add: in_set_enumerate_eq length_cells_nat)
  then show "covers th tw r c (List.enumerate 0 (cells (int gh) (int gw)))"
    unfolding covers_def by force
qed

lemma place_all_tiles:
  assumes th: "0 < th" and tw: "0 < tw"
    and fit: "gh * th \<le> H" "gw * tw \<le> W"
    and lo: "length order = gh * gw"
    and oT: "\<forall>k < length order. order ! k < length T"
    and sT: "\<forall>t \<in> set T. has_shape t th tw"
    and cs: "has_shape canvas H W"
  shows "\<exists>res. place_tiles canvas (int th, int tw) T order
                 (List.enumerate 0 (cells (int gh) (int gw))) = Inr res \<and>
           has_shape res H W \<and>
           (\<forall>r c. r < H \<longrightarrow> c < W \<longrightarrow>
              res ! r ! c = (if r < gh * th \<and> c < gw * tw
                             then T ! (order ! ((r div th) * gw + c div tw)) ! (r mod th) ! (c mod tw)
                             else canvas ! r ! c))"
  using place_tiles_nth[OF th tw fit lo oT sT cs enumerate_cells_ok]
  unfolding covers_enumerate_cells[OF th tw] .

lemma has_shape_zeros: "has_shape (zeros h w) h w"
  by (simp add: has_shape_def zeros_def list_all_iff)

lemma has_shape_zeros_like: "has_shape im h w \<Longrightarrow> has_shape (zeros_like im) h w"
  by (simp add: has_shape_def zeros_like_def list_all_iff)

lemma image_eqI2:
  assumes "has_shape a h w" "has_shape b h w"
    and "\<And>r c. r < h \<Longrightarrow> c < w \<Longrightarrow> a ! r ! c = b ! r ! c"
  shows "a = b"
proof (rule nth_equalityI)
  show "length a = length b" using assms by (simp add: has_shapeD)
  fix r assume "r < length a"
  then have r: "r < h" using assms by (simp add: has_shapeD)
  show "a ! r = b ! r"
  proof (rule nth_equalityI)
    show "length (a ! r) = length (b ! r)" using assms r by (simp add: has_shapeD)
    fix c assume "c < length (a ! r)"
    then have "c < w" using assms r by (simp add: has_shapeD)
    then show "a ! r ! c = b ! r ! c" using assms(3) r by simp
  qed
qed

text \<open>Pixels of a block cut at non-negative bounds inside the image.\<close>

lemma block_nth:
  assumes "has_shape im H W" "r0 + h \<le> H" "c0 + w \<le> W" "r < h" "c < w"
  shows "block im (int r0) (int (r0 + h)) (int c0) (int (c0 + w)) ! r ! c = im ! (r0 + r) ! (c0 + c)"
proof -
  have l: "length im = H" using assms by (simp add: has_shapeD)
  have rl: "length (im ! (r0 + r)) = W" using assms by (simp add: has_shapeD)
  have 1: "pyslice im (int r0) (int (r0 + h)) = take h (drop r0 im)"
    by (simp add: pyslice_nonneg nat_add_distrib)
  have 2: "\<And>row. pyslice row (int c0) (int (c0 + w)) = take w (drop c0 row)"
    by (simp add: pyslice_nonneg nat_add_distrib)
  show ?thesis
    unfolding block_def 1 2 using assms l rl by simp
qed

lemma block_has_shape:
  assumes "has_shape im H W" "r0 + h \<le> H" "c0 + w \<le> W"
  shows "has_shape (block im (int r0) (int (r0 + h)) (int c0) (int (c0 + w))) h w"
proof -
  have 1: "pyslice im (int r0) (int (r0 + h)) = take h (drop r0 im)"
    by (simp add: pyslice_nonneg nat_add_distrib)
  have 2: "\<And>row. pyslice row (int c0) (int (c0 + w)) = take w (drop c0 row)"
    by (simp add: pyslice_nonneg nat_add_distrib)
  have "\<forall>row \<in> set (take h (drop r0 im)). length row = W"
    using assms(1) by (auto simp: has_shape_def list_all_iff dest!: in_set_takeD in_set_dropD)
  then show ?thesis
    unfolding block_def 1 2 using assms by (auto simp: has_shape_def list_all_iff)
qed

text \<open>The tiles cut from an image of known shape.\<close>

lemma cut_tiles_nth:
  assumes "has_shape im H W" "gh * th \<le> H" "gw * tw \<le> W" "k < gh * gw"
  shows "cut_tiles im (int gh, int gw) (int th, int tw) ! k
           = block im (int (k div gw * th)) (int (k div gw * th + th))
                      (int (k mod gw * tw)) (int (k mod gw * tw + tw))"
  using assms(4) cells_nth[OF assms(4)]
  by (simp add: cut_tiles_def length_cells_nat algebra_simps)

lemma length_cut_tiles: "length (cut_tiles im (int gh, int gw) ts) = gh * gw"
  by (cases ts) (simp add: cut_tiles_def length_cells_nat)

lemma cut_tiles_has_shape:
  assumes "has_shape im H W" "gh * th \<le> H" "gw * tw \<le> W"
  shows "\<forall>t \<in> set (cut_tiles im (int gh, int gw) (int th, int tw)). has_shape t th tw"
proof
  fix t assume "t \<in> set (cut_tiles im (int gh, int gw) (int th, int tw))"
  then obtain k where k: "k < gh * gw" and t: "t = cut_tiles im (int gh, int gw) (int th, int tw) ! k"
    by (metis in_set_conv_nth length_cut_tiles)
  have gw: "0 < gw" using k by (cases gw) auto
  have "k div gw < gh" using k gw by (simp add: less_mult_imp_div_less)
  then have "(k div gw + 1) * th \<le> gh * th" by (intro mult_le_mono1) simp
  then have b1: "k div gw * th + th \<le> H" using assms by simp
  have "k mod gw < gw" using gw by simp
  then have "(k mod gw + 1) * tw \<le> gw * tw" by (intro mult_le_mono1) simp
  then have b2: "k mod gw * tw + tw \<le> W" using assms by simp
  show "has_shape t th tw"
    unfolding t cut_tiles_nth[OF assms k] by (rule block_has_shape[OF assms(1) b1 b2])
qed

lemma cut_tiles_pixel:
  assumes "has_shape im H W" "gh * th \<le> H" "gw * tw \<le> W" "k < gh * gw" "a < th" "b < tw"
  shows "cut_tiles im (int gh, int gw) (int th, int tw) ! k ! a ! b
           = im ! (k div gw * th + a) ! (k mod gw * tw + b)"
proof -
  have gw: "0 < gw" using assms(4) by (cases gw) auto
  have "k div gw < gh" using assms(4) gw by (simp add: less_mult_imp_div_less)
  then have "(k div gw + 1) * th \<le> gh * th" by (intro mult_le_mono1) simp
  then have b1: "k div gw * th + th \<le> H" using assms by simp
  have "k mod gw < gw" using gw by simp
  then have "(k mod gw + 1) * tw \<le> gw * tw" by (intro mult_le_mono1) simp
  then have b2: "k mod gw * tw + tw \<le> W" using assms by simp
  show ?thesis
    unfolding cut_tiles_nth[OF assms(1-4)] by (rule block_nth[OF assms(1) b1 b2 assms(5,6)])
qed

section \<open>The shuffle loop permutes\<close>


lemma swap_items_mset:
  "i < length xs \<Longrightarrow> j < length xs \<Longrightarrow>
   \<exists>ys. swap_items xs i j = Inr ys \<and> mset ys = mset xs \<and> length ys = length xs"
  by (simp add: swap_items_def mset_swap)

lemma shuffle_loop_mset:
  assumes "draws_below rb"
  shows "k = 0 \<or> k < length xs \<Longrightarrow>
         \<exists>ys g'. shuffle_loop rb k g xs = Inr (ys, g') \<and> mset ys = mset xs"
proof (induction k arbitrary: g xs)
  case 0
  then show ?case by simp
next
  case (Suc k)
  obtain j g1 where d: "rb g (Suc (Suc k)) = (j, g1)" by (cases "rb g (Suc (Suc k))")
  from Suc.prems have k: "Suc k < length xs" by simp
  have "fst (rb g (Suc (Suc k))) < Suc (Suc k)"
    using assms unfolding draws_below_def by blast
  with d k have j: "j < length xs" by simp
  from swap_items_mset[OF k j] obtain ys where
    s: "swap_items xs (Suc k) j = Inr ys" "mset ys = mset xs" "length ys = length xs" by blast
  from k s(3) have "k = 0 \<or> k < length ys" by simp
  from Suc.IH[OF this, of g1] obtain zs g' where
    "shuffle_loop rb k g1 ys = Inr (zs, g')" "mset zs = mset ys" by blast
  with d s show ?case by simp
qed

lemma shuffle_list_mset:
  assumes "draws_below rb"
  shows "\<exists>ys g'. shuffle_list rb g xs = Inr (ys, g') \<and> mset ys = mset xs"
  unfolding shuffle_list_def
  by (rule shuffle_loop_mset[OF assms]) (cases xs; simp)

lemma mset_upt_bijection:
  assumes "mset ys = mset [0..<n]"
  shows "distinct ys \<and> set ys = {0..<n} \<and> length ys = n"
proof -
  have "distinct ys" using assms by (metis distinct_upt mset_eq_imp_distinct_iff)
  moreover have "set ys = {0..<n}" using assms by (metis mset_eq_setD set_upt)
  moreover have "length ys = n" using assms by (metis length_upt mset_eq_length diff_zero)
  ultimately show ?thesis by simp
qed

lemma lcg_draws_below: "draws_below (randbelow lcg)"
  by (simp add: draws_below_def lcg_def nat_less_iff)

section \<open>What the display routines leave alone\<close>


lemma show_cv_fields [simp]:
  "tile_order (snd (show_cv s im f)) = tile_order s"
  "selected (snd (show_cv s im f)) = selected s"
  "tiles (snd (show_cv s im f)) = tiles s"
  "grid_size (snd (show_cv s im f)) = grid_size s"
  "difficulty (snd (show_cv s im f)) = difficulty s"
  "img (snd (show_cv s im f)) = img s"
  "orig_img (snd (show_cv s im f)) = orig_img s"
  "fill_box (snd (show_cv s im f)) = fill_box s"
  "status (snd (show_cv s im f)) = status s"
  by (auto simp: show_cv_def Let_def split: option.splits)

lemma assemble_and_show_fields [simp]:
  "tile_order (snd (assemble_and_show s)) = tile_order s"
  "selected (snd (assemble_and_show s)) = selected s"
  "tiles (snd (assemble_and_show s)) = tiles s"
  "grid_size (snd (assemble_and_show s)) = grid_size s"
  "difficulty (snd (assemble_and_show s)) = difficulty s"
  "img (snd (assemble_and_show s)) = img s"
  "orig_img (snd (assemble_and_show s)) = orig_img s"
  "fill_box (snd (assemble_and_show s)) = fill_box s"
  "status (snd (assemble_and_show s)) = status s"
  by (auto simp: assemble_and_show_def split: sum.splits option.splits)

section \<open>A puzzle in play assembles and displays\<close>


lemma bijection_mset: "mset p = mset [0..<n] \<Longrightarrow> bijective_order p n"
  using mset_upt_bijection[of p n] unfolding bijective_order_def by blast

lemma bijection_upt: "bijective_order [0..<n] n"
  by (simp add: bijective_order_def)

lemma bijection_swap:
  "bijective_order p n \<Longrightarrow> a < n \<Longrightarrow> b < n \<Longrightarrow> bijective_order (p[a := p ! b, b := p ! a]) n"
  by (simp add: bijective_order_def distinct_swap)

lemma bijection_nth: "bijective_order p n \<Longrightarrow> k < n \<Longrightarrow> p ! k < n"
  unfolding bijective_order_def by (metis atLeastLessThan_iff nth_mem)


lemma assemble_pixels:
  assumes t: "tiles s = Some ts" and o: "tile_order s = Some p"
    and g: "grid_size s = (int gh, int gw)" and gp: "0 < gh" "0 < gw"
    and lt: "length ts = gh * gw" and lp: "length p = gh * gw"
    and pr: "\<forall>k < length p. p ! k < length ts"
    and sh: "\<forall>t \<in> set ts. has_shape t th tw" and tp: "0 < th" "0 < tw"
  shows "\<exists>puzzle. assemble s = Inr (Some puzzle) \<and> has_shape puzzle (gh * th) (gw * tw) \<and>
           (\<forall>r c. r < gh * th \<longrightarrow> c < gw * tw \<longrightarrow>
              puzzle ! r ! c = ts ! (p ! ((r div th) * gw + c div tw)) ! (r mod th) ! (c mod tw))"
proof -
  have ne: "0 < length ts" using lt gp by simp
  then have t0: "has_shape (ts ! 0) th tw" using sh by simp
  have hw: "height (ts ! 0) = th" "width (ts ! 0) = tw"
    using t0 tp by (simp_all add: has_shape_height has_shape_width)
  have n: "nat (int th * int gh) = gh * th" "nat (int tw * int gw) = gw * tw"
    by (simp_all add: nat_mult_distrib mult.commute)
  have nn: "\<not> (int th * int gh < 0 \<or> int tw * int gw < 0)"
    by (simp add: not_less)
  from place_all_tiles[OF tp order_refl order_refl lp pr sh has_shape_zeros]
  obtain res where
    r: "place_tiles (zeros (gh * th) (gw * tw)) (int th, int tw) ts p
          (List.enumerate 0 (cells (int gh) (int gw))) = Inr res"
    and rs: "has_shape res (gh * th) (gw * tw)"
    and rp: "\<forall>r c. r < gh * th \<longrightarrow> c < gw * tw \<longrightarrow>
              res ! r ! c = (if r < gh * th \<and> c < gw * tw
                             then ts ! (p ! ((r div th) * gw + c div tw)) ! (r mod th) ! (c mod tw)
                             else zeros (gh * th) (gw * tw) ! r ! c)"
    by blast
  have "assemble s = Inr (Some res)"
    unfolding assemble_def t o g using ne nn r by (simp add: item_def hw n)
  with rs rp show ?thesis by auto
qed






section \<open>The handlers, case by case\<close>

lemma click_cell_selected_status [simp]:
  "click_cell (s\<lparr>selected := a, status := b\<rparr>) x y = click_cell s x y"
  by (cases "grid_size s") (simp add: click_cell_def Let_def split: sum.splits)


lemma assemble_and_show_eq:
  assumes "assemble_and_show s = (out, s')"
  shows "selected s' = selected s \<and> tile_order s' = tile_order s \<and> tiles s' = tiles s \<and>
         grid_size s' = grid_size s \<and> difficulty s' = difficulty s \<and> img s' = img s \<and>
         orig_img s' = orig_img s \<and> fill_box s' = fill_box s"
proof -
  have "s' = snd (assemble_and_show s)" using assms by simp
  then show ?thesis by simp
qed

lemma show_cv_eq:
  assumes "show_cv s im f = (out, s')"
  shows "selected s' = selected s \<and> tile_order s' = tile_order s \<and> tiles s' = tiles s \<and>
         grid_size s' = grid_size s \<and> difficulty s' = difficulty s \<and> img s' = img s \<and>
         orig_img s' = orig_img s \<and> fill_box s' = fill_box s"
proof -
  have "s' = snd (show_cv s im f)" using assms by simp
  then show ?thesis by simp
qed

lemma shuffle_cases:
  assumes none: "orig_img s = None \<Longrightarrow>
      P (Done, if silent then s else s\<lparr>status := LoadAnImageFirst\<rparr>)"
    and wfail: "\<And>orig e. orig_img s = Some orig \<Longrightarrow>
      working_image rs (set_difficulty s) orig = Inl e \<Longrightarrow> P (Raised e, set_difficulty s)"
    and tfail: "\<And>orig wimg e. orig_img s = Some orig \<Longrightarrow>
      working_image rs (set_difficulty s) orig = Inr wimg \<Longrightarrow>
      tile_size wimg (grid_size (set_difficulty s)) = Inl e \<Longrightarrow>
      P (Raised e, (set_difficulty s)\<lparr>img := Some wimg\<rparr>)"
    and sfail: "\<And>orig wimg tsize e. orig_img s = Some orig \<Longrightarrow>
      working_image rs (set_difficulty s) orig = Inr wimg \<Longrightarrow>
      tile_size wimg (grid_size (set_difficulty s)) = Inr tsize \<Longrightarrow>
      shuffle_list (randbelow np) (seeded np entropy)
        [0..<length (cut_tiles wimg (grid_size (set_difficulty s)) tsize)] = Inl e \<Longrightarrow>
      P (Raised e, (set_difficulty s)\<lparr>img := Some wimg,
                     tiles := Some (cut_tiles wimg (grid_size (set_difficulty s)) tsize)\<rparr>)"
    and afail: "\<And>orig wimg tsize order g e s4. orig_img s = Some orig \<Longrightarrow>
      working_image rs (set_difficulty s) orig = Inr wimg \<Longrightarrow>
      tile_size wimg (grid_size (set_difficulty s)) = Inr tsize \<Longrightarrow>
      shuffle_list (randbelow np) (seeded np entropy)
        [0..<length (cut_tiles wimg (grid_size (set_difficulty s)) tsize)] = Inr (order, g) \<Longrightarrow>
      assemble_and_show ((set_difficulty s)\<lparr>img := Some wimg,
          tiles := Some (cut_tiles wimg (grid_size (set_difficulty s)) tsize),
          tile_order := Some order\<rparr>) = (Raised e, s4) \<Longrightarrow>
      P (Raised e, s4)"
    and ok: "\<And>orig wimg tsize order g s4. orig_img s = Some orig \<Longrightarrow>
      working_image rs (set_difficulty s) orig = Inr wimg \<Longrightarrow>
      tile_size wimg (grid_size (set_difficulty s)) = Inr tsize \<Longrightarrow>
      shuffle_list (randbelow np) (seeded np entropy)
        [0..<length (cut_tiles wimg (grid_size (set_difficulty s)) tsize)] = Inr (order, g) \<Longrightarrow>
      assemble_and_show ((set_difficulty s)\<lparr>img := Some wimg,
          tiles := Some (cut_tiles wimg (grid_size (set_difficulty s)) tsize),
          tile_order := Some order\<rparr>) = (Done, s4) \<Longrightarrow>
      P (Done, if silent then s4\<lparr>save_enabled := True\<rparr>
               else s4\<lparr>save_enabled := True, status := ShuffledClickTiles\<rparr>)"
  shows "P (shuffle np rs s silent entropy)"
proof (cases "orig_img s")
  case None
  then show ?thesis using none by (simp add: shuffle_def)
next
  case (Some orig)
  note o = this
  show ?thesis
  proof (cases "working_image rs (set_difficulty s) orig")
    case (Inl e)
    then show ?thesis using wfail[OF o Inl] o by (simp add: shuffle_def Let_def)
  next
    case (Inr wimg)
    note w = this
    have g: "grid_size ((set_difficulty s)\<lparr>img := Some wimg\<rparr>) = grid_size (set_difficulty s)"
      by simp
    show ?thesis
    proof (cases "tile_size wimg (grid_size (set_difficulty s))")
      case (Inl e)
      then show ?thesis using tfail[OF o w Inl] o w by (simp add: shuffle_def Let_def)
    next
      case (Inr tsize)
      note t = this
      show ?thesis
      proof (cases "shuffle_list (randbelow np) (seeded np entropy)
                      [0..<length (cut_tiles wimg (grid_size (set_difficulty s)) tsize)]")
        case (Inl e)
        then show ?thesis using sfail[OF o w t Inl] o w t by (simp add: shuffle_def Let_def)
      next
        case (Inr og)
        obtain order g where og: "og = (order, g)" by (cases og)
        note sl = Inr[unfolded og]
        obtain o4 s4 where a: "assemble_and_show ((set_difficulty s)\<lparr>img := Some wimg,
            tiles := Some (cut_tiles wimg (grid_size (set_difficulty s)) tsize),
            tile_order := Some order\<rparr>) = (o4, s4)"
          by (cases "assemble_and_show ((set_difficulty s)\<lparr>img := Some wimg,
            tiles := Some (cut_tiles wimg (grid_size (set_difficulty s)) tsize),
            tile_order := Some order\<rparr>)")
        show ?thesis
        proof (cases o4)
          case Done
          then show ?thesis
            using ok[OF o w t sl a[unfolded Done]] o w t sl a by (simp add: shuffle_def Let_def)
        next
          case (Raised e)
          then show ?thesis
            using afail[OF o w t sl a[unfolded Raised]] o w t sl a by (simp add: shuffle_def Let_def)
        qed
      qed
    qed
  qed
qed




section \<open>Shuffling keeps the invariants\<close>


lemma length_cut_tiles_grid:
  "length (cut_tiles im (DIFFICULTY_GRID d) tsize) =
     nat (fst (DIFFICULTY_GRID d) * snd (DIFFICULTY_GRID d))"
  by (cases d; cases tsize) (simp_all add: cut_tiles_def DIFFICULTY_GRID_def length_cells)

lemma length_cut_tiles_any: "length (cut_tiles im (gh, gw) tsize) = nat gh * nat gw"
  by (cases tsize) (simp add: cut_tiles_def length_cells)

lemma shuffle_list_bijective:
  assumes "draws_below rb"
  shows "\<exists>order g. shuffle_list rb g0 [0..<n] = Inr (order, g) \<and> bijective_order order n"
proof -
  from shuffle_list_mset[OF assms, of g0 "[0..<n]"] obtain ys g' where
    "shuffle_list rb g0 [0..<n] = Inr (ys, g')" "mset ys = mset [0..<n]" by blast
  then show ?thesis using bijection_mset by blast
qed

lemma consistent_set_difficulty: "consistent s \<Longrightarrow> consistent (set_difficulty s)"
  by (auto simp: consistent_def set_difficulty_def split: option.splits)

lemma matches_cong:
  "tiles s' = tiles s \<Longrightarrow> tile_order s' = tile_order s \<Longrightarrow>
   order_matches_tiles s' = order_matches_tiles s"
  by (simp add: order_matches_tiles_def)

lemma consistent_cong:
  "tiles s' = tiles s \<Longrightarrow> tile_order s' = tile_order s \<Longrightarrow> grid_size s' = grid_size s \<Longrightarrow>
   difficulty s' = difficulty s \<Longrightarrow> consistent s' = consistent s"
  by (auto simp: consistent_def split: option.splits)

lemma consistent_upd [simp]:
  "consistent (s\<lparr>status := a\<rparr>) = consistent s"
  "consistent (s\<lparr>save_enabled := b\<rparr>) = consistent s"
  "consistent (s\<lparr>img := c\<rparr>) = consistent s"
  "consistent (s\<lparr>selected := d\<rparr>) = consistent s"
  "consistent (s\<lparr>orig_img := e\<rparr>) = consistent s"
  "consistent (s\<lparr>fill_box := f\<rparr>) = consistent s"
  "consistent (s\<lparr>panel_w := g\<rparr>) = consistent s"
  "consistent (s\<lparr>panel_h := h\<rparr>) = consistent s"
  by (rule consistent_cong; simp)+

lemma matches_upd [simp]:
  "order_matches_tiles (s\<lparr>status := a\<rparr>) = order_matches_tiles s"
  "order_matches_tiles (s\<lparr>save_enabled := b\<rparr>) = order_matches_tiles s"
  "order_matches_tiles (s\<lparr>img := c\<rparr>) = order_matches_tiles s"
  "order_matches_tiles (s\<lparr>selected := d\<rparr>) = order_matches_tiles s"
  "order_matches_tiles (s\<lparr>orig_img := e\<rparr>) = order_matches_tiles s"
  "order_matches_tiles (s\<lparr>fill_box := f\<rparr>) = order_matches_tiles s"
  "order_matches_tiles (s\<lparr>panel_w := g\<rparr>) = order_matches_tiles s"
  "order_matches_tiles (s\<lparr>panel_h := h\<rparr>) = order_matches_tiles s"
  "order_matches_tiles (s\<lparr>grid_size := i\<rparr>) = order_matches_tiles s"
  "order_matches_tiles (s\<lparr>difficulty := j\<rparr>) = order_matches_tiles s"
  by (rule matches_cong; simp)+

lemma matches_set_difficulty [simp]: "order_matches_tiles (set_difficulty s) = order_matches_tiles s"
  by (simp add: set_difficulty_def)


lemma consistent_order_ok: "consistent s \<Longrightarrow> order_ok s"
  by (auto simp: consistent_def order_ok_def split: option.splits prod.splits)

lemma consistent_shuffle:
  fixes s :: "('a::zero) gui"
  assumes d: "draws_below (randbelow np)" and c: "consistent s"
  shows "consistent (snd (shuffle (np :: ('s, 'g) generator) rs s silent entropy))"
proof (rule shuffle_cases[where P = "\<lambda>r. consistent (snd r)"])
  assume "orig_img s = None"
  then show "consistent (snd (Done, if silent then s else s\<lparr>status := LoadAnImageFirst\<rparr>))"
    using c by simp
next
  fix orig :: "'a image" and e :: error
  show "consistent (snd (Raised e, set_difficulty s))"
    using consistent_set_difficulty[OF c] by simp
next
  fix orig wimg :: "'a image" and e :: error
  show "consistent (snd (Raised e, (set_difficulty s)\<lparr>img := Some wimg\<rparr>))"
    using consistent_set_difficulty[OF c] by simp
next
  fix orig wimg :: "'a image" and tsize :: "int \<times> int" and e :: error
  assume "shuffle_list (randbelow np) (seeded np entropy)
        [0..<length (cut_tiles wimg (grid_size (set_difficulty s)) tsize)] = Inl e"
  with shuffle_list_bijective[OF d] have False by (metis Inl_Inr_False)
  then show "consistent (snd (Raised e, (set_difficulty s)\<lparr>img := Some wimg,
                     tiles := Some (cut_tiles wimg (grid_size (set_difficulty s)) tsize)\<rparr>))" ..
next
  fix orig wimg :: "'a image" and tsize :: "int \<times> int" and order :: "nat list" and g :: 'g
    and e :: error and s4 :: "'a gui"
  let ?X = "(set_difficulty s)\<lparr>img := Some wimg,
          tiles := Some (cut_tiles wimg (grid_size (set_difficulty s)) tsize),
          tile_order := Some order\<rparr>"
  assume sl: "shuffle_list (randbelow np) (seeded np entropy)
        [0..<length (cut_tiles wimg (grid_size (set_difficulty s)) tsize)] = Inr (order, g)"
    and a: "assemble_and_show ?X = (Raised e, s4)"
  from shuffle_list_bijective[OF d, of "seeded np entropy"
      "length (cut_tiles wimg (grid_size (set_difficulty s)) tsize)"] sl
  have b: "bijective_order order (length (cut_tiles wimg (grid_size (set_difficulty s)) tsize))"
    by simp
  have X: "consistent ?X"
    using b by (simp add: consistent_def set_difficulty_def length_cut_tiles_grid split: prod.splits)
  from assemble_and_show_eq[OF a] have "consistent s4 = consistent ?X"
    by (intro consistent_cong) simp_all
  with X show "consistent (snd (Raised e, s4))" by simp
next
  fix orig wimg :: "'a image" and tsize :: "int \<times> int" and order :: "nat list" and g :: 'g
    and s4 :: "'a gui"
  let ?X = "(set_difficulty s)\<lparr>img := Some wimg,
          tiles := Some (cut_tiles wimg (grid_size (set_difficulty s)) tsize),
          tile_order := Some order\<rparr>"
  assume sl: "shuffle_list (randbelow np) (seeded np entropy)
        [0..<length (cut_tiles wimg (grid_size (set_difficulty s)) tsize)] = Inr (order, g)"
    and a: "assemble_and_show ?X = (Done, s4)"
  from shuffle_list_bijective[OF d, of "seeded np entropy"
      "length (cut_tiles wimg (grid_size (set_difficulty s)) tsize)"] sl
  have b: "bijective_order order (length (cut_tiles wimg (grid_size (set_difficulty s)) tsize))"
    by simp
  have X: "consistent ?X"
    using b by (simp add: consistent_def set_difficulty_def length_cut_tiles_grid split: prod.splits)
  from assemble_and_show_eq[OF a] have "consistent s4 = consistent ?X"
    by (intro consistent_cong) simp_all
  with X have "consistent s4" by simp
  then show "consistent (snd (Done, if silent then s4\<lparr>save_enabled := True\<rparr>
               else s4\<lparr>save_enabled := True, status := ShuffledClickTiles\<rparr>))"
    by simp
qed

lemma matches_shuffle:
  fixes s :: "('a::zero) gui"
  assumes d: "draws_below (randbelow np)" and c: "order_matches_tiles s"
  shows "order_matches_tiles (snd (shuffle (np :: ('s, 'g) generator) rs s silent entropy))"
proof (rule shuffle_cases[where P = "\<lambda>r. order_matches_tiles (snd r)"])
  assume "orig_img s = None"
  then show "order_matches_tiles (snd (Done, if silent then s else s\<lparr>status := LoadAnImageFirst\<rparr>))"
    using c by simp
next
  fix orig :: "'a image" and e :: error
  show "order_matches_tiles (snd (Raised e, set_difficulty s))"
    using c by simp
next
  fix orig wimg :: "'a image" and e :: error
  show "order_matches_tiles (snd (Raised e, (set_difficulty s)\<lparr>img := Some wimg\<rparr>))"
    using c by simp
next
  fix orig wimg :: "'a image" and tsize :: "int \<times> int" and e :: error
  assume "shuffle_list (randbelow np) (seeded np entropy)
        [0..<length (cut_tiles wimg (grid_size (set_difficulty s)) tsize)] = Inl e"
  with shuffle_list_bijective[OF d] have False by (metis Inl_Inr_False)
  then show "order_matches_tiles (snd (Raised e, (set_difficulty s)\<lparr>img := Some wimg,
                     tiles := Some (cut_tiles wimg (grid_size (set_difficulty s)) tsize)\<rparr>))" ..
next
  fix orig wimg :: "'a image" and tsize :: "int \<times> int" and order :: "nat list" and g :: 'g
    and e :: error and s4 :: "'a gui"
  let ?X = "(set_difficulty s)\<lparr>img := Some wimg,
          tiles := Some (cut_tiles wimg (grid_size (set_difficulty s)) tsize),
          tile_order := Some order\<rparr>"
  assume sl: "shuffle_list (randbelow np) (seeded np entropy)
        [0..<length (cut_tiles wimg (grid_size (set_difficulty s)) tsize)] = Inr (order, g)"
    and a: "assemble_and_show ?X = (Raised e, s4)"
  from shuffle_list_bijective[OF d, of "seeded np entropy"
      "length (cut_tiles wimg (grid_size (set_difficulty s)) tsize)"] sl
  have b: "bijective_order order (length (cut_tiles wimg (grid_size (set_difficulty s)) tsize))"
    by simp
  have X: "order_matches_tiles ?X"
    using b by (simp add: order_matches_tiles_def)
  from assemble_and_show_eq[OF a] have "order_matches_tiles s4 = order_matches_tiles ?X"
    by (intro matches_cong) simp_all
  with X show "order_matches_tiles (snd (Raised e, s4))" by simp
next
  fix orig wimg :: "'a image" and tsize :: "int \<times> int" and order :: "nat list" and g :: 'g
    and s4 :: "'a gui"
  let ?X = "(set_difficulty s)\<lparr>img := Some wimg,
          tiles := Some (cut_tiles wimg (grid_size (set_difficulty s)) tsize),
          tile_order := Some order\<rparr>"
  assume sl: "shuffle_list (randbelow np) (seeded np entropy)
        [0..<length (cut_tiles wimg (grid_size (set_difficulty s)) tsize)] = Inr (order, g)"
    and a: "assemble_and_show ?X = (Done, s4)"
  from shuffle_list_bijective[OF d, of "seeded np entropy"
      "length (cut_tiles wimg (grid_size (set_difficulty s)) tsize)"] sl
  have b: "bijective_order order (length (cut_tiles wimg (grid_size (set_difficulty s)) tsize))"
    by simp
  have X: "order_matches_tiles ?X"
    using b by (simp add: order_matches_tiles_def)
  from assemble_and_show_eq[OF a] have "order_matches_tiles s4 = order_matches_tiles ?X"
    by (intro matches_cong) simp_all
  with X have "order_matches_tiles s4" by simp
  then show "order_matches_tiles (snd (Done, if silent then s4\<lparr>save_enabled := True\<rparr>
               else s4\<lparr>save_enabled := True, status := ShuffledClickTiles\<rparr>))"
    by simp
qed

section \<open>Every handler keeps the invariants\<close>


lemma reset_cases:
  assumes "tiles s = None \<Longrightarrow> P (Done, s)"
    and "\<And>ts e s1. tiles s = Some ts \<Longrightarrow>
          assemble_and_show (s\<lparr>tile_order := Some [0..<length ts]\<rparr>) = (Raised e, s1) \<Longrightarrow>
          P (Raised e, s1)"
    and "\<And>ts s1. tiles s = Some ts \<Longrightarrow>
          assemble_and_show (s\<lparr>tile_order := Some [0..<length ts]\<rparr>) = (Done, s1) \<Longrightarrow>
          P (Done, s1\<lparr>status := ResetToOriginal, save_enabled := False\<rparr>)"
  shows "P (reset s)"
proof (cases "tiles s")
  case None
  then show ?thesis using assms(1) by (simp add: reset_def)
next
  case (Some ts)
  obtain out s1 where a: "assemble_and_show (s\<lparr>tile_order := Some [0..<length ts]\<rparr>) = (out, s1)"
    by (cases "assemble_and_show (s\<lparr>tile_order := Some [0..<length ts]\<rparr>)")
  show ?thesis
  proof (cases out)
    case Done
    then show ?thesis using assms(3)[OF Some a[unfolded Done]] Some a by (simp add: reset_def)
  next
    case (Raised e)
    then show ?thesis using assms(2)[OF Some a[unfolded Raised]] Some a by (simp add: reset_def)
  qed
qed

lemma on_click_cases:
  assumes idle: "tiles s = None \<or> tile_order s = None \<Longrightarrow> P (Done, s)"
    and err: "\<And>e. click_cell s x y = Inl e \<Longrightarrow> P (Raised e, s)"
    and miss: "click_cell s x y = Inr None \<Longrightarrow> P (Done, s)"
    and first: "\<And>idx. selected s = [] \<Longrightarrow>
          P (Done, s\<lparr>selected := [idx], status := SelectedTile (idx + 1)\<rparr>)"
    and same: "selected s \<noteq> [] \<Longrightarrow> P (Done, s\<lparr>selected := butlast (selected s)\<rparr>)"
    and bad: "\<And>e. selected s \<noteq> [] \<Longrightarrow> P (Raised e, s\<lparr>selected := butlast (selected s)\<rparr>)"
    and swr: "\<And>order idx order' e s2. tile_order s = Some order \<Longrightarrow> selected s \<noteq> [] \<Longrightarrow>
          swap_items order (last (selected s)) idx = Inr order' \<Longrightarrow>
          assemble_and_show (s\<lparr>selected := butlast (selected s), tile_order := Some order'\<rparr>)
            = (Raised e, s2) \<Longrightarrow>
          P (Raised e, s2)"
    and swd: "\<And>order idx order' s2 st. tile_order s = Some order \<Longrightarrow> selected s \<noteq> [] \<Longrightarrow>
          swap_items order (last (selected s)) idx = Inr order' \<Longrightarrow>
          assemble_and_show (s\<lparr>selected := butlast (selected s), tile_order := Some order'\<rparr>)
            = (Done, s2) \<Longrightarrow>
          P (Done, s2\<lparr>status := Solved, save_enabled := True\<rparr>) \<and> P (Done, s2\<lparr>status := st\<rparr>)"
  shows "P (on_click s x y)"
proof (cases "tiles s")
  case None
  then show ?thesis using idle by (simp add: on_click_def)
next
  case (Some ts)
  note t = this
  show ?thesis
  proof (cases "tile_order s")
    case None
    then show ?thesis using idle t by (simp add: on_click_def)
  next
    case (Some order)
    note o = this
    show ?thesis
    proof (cases "click_cell s x y")
      case (Inl e)
      then show ?thesis using err t o by (simp add: on_click_def)
    next
      case (Inr c)
      show ?thesis
      proof (cases c)
        case None
        then show ?thesis using miss Inr t o by (simp add: on_click_def)
      next
        case (Some rc)
        obtain row col where rc: "rc = (row, col)" by (cases rc)
        define idx where "idx = nat (row * snd (grid_size s) + col)"
        note cc = Inr[unfolded Some rc]
        show ?thesis
        proof (cases "selected s = []")
          case True
          then show ?thesis
            using first[of idx] t o cc by (simp add: on_click_def Let_def idx_def)
        next
          case False
          note ns = this
          show ?thesis
          proof (cases "last (selected s) = idx")
            case True
            then show ?thesis
              using same[OF ns] t o cc ns by (simp add: on_click_def Let_def idx_def)
          next
            case False
            note ne = this
            show ?thesis
            proof (cases "swap_items order (last (selected s)) idx")
              case (Inl e)
              then show ?thesis
                using bad[OF ns, of e] t o cc ns ne by (simp add: on_click_def Let_def idx_def)
            next
              case (Inr order')
              note sw = this
              obtain out s2 where a:
                "assemble_and_show (s\<lparr>selected := butlast (selected s), tile_order := Some order'\<rparr>)
                   = (out, s2)"
                by (cases "assemble_and_show
                      (s\<lparr>selected := butlast (selected s), tile_order := Some order'\<rparr>)")
              show ?thesis
              proof (cases out)
                case Done
                from swd[OF o ns sw a[unfolded Done]] show ?thesis
                  using t o cc ns ne sw a Done
                  by (simp add: on_click_def Let_def idx_def)
              next
                case (Raised e)
                from swr[OF o ns sw a[unfolded Raised]] show ?thesis
                  using t o cc ns ne sw a Raised
                  by (simp add: on_click_def Let_def idx_def)
              qed
            qed
          qed
        qed
      qed
    qed
  qed
qed


lemma swap_items_bijective:
  assumes "bijective_order p n" "swap_items p a b = Inr p'"
  shows "bijective_order p' n"
proof -
  have l: "length p = n" using assms(1) by (simp add: bijective_order_def)
  from assms(2) have "a < n" "b < n" "p' = p[a := p ! b, b := p ! a]"
    by (auto simp: swap_items_def l split: if_splits)
  then show ?thesis using bijection_swap[OF assms(1)] by simp
qed

lemma consistent_order_upd:
  "consistent s \<Longrightarrow> tile_order s = Some p \<Longrightarrow> bijective_order p' (length p) \<Longrightarrow>
   consistent (s\<lparr>tile_order := Some p'\<rparr>)"
  by (auto simp: consistent_def bijective_order_def split: option.splits)

lemma matches_order_upd:
  "order_matches_tiles s \<Longrightarrow> tile_order s = Some p \<Longrightarrow> bijective_order p' (length p) \<Longrightarrow>
   order_matches_tiles (s\<lparr>tile_order := Some p'\<rparr>)"
  by (auto simp: order_matches_tiles_def bijective_order_def split: option.splits)

lemma consistent_reset_upd:
  "consistent s \<Longrightarrow> tiles s = Some ts \<Longrightarrow> consistent (s\<lparr>tile_order := Some [0..<length ts]\<rparr>)"
  by (auto simp: consistent_def bijective_order_def split: option.splits)

lemma matches_reset_upd:
  "order_matches_tiles s \<Longrightarrow> tiles s = Some ts \<Longrightarrow>
   order_matches_tiles (s\<lparr>tile_order := Some [0..<length ts]\<rparr>)"
  by (auto simp: order_matches_tiles_def bijective_order_def split: option.splits)

lemma consistent_after_show:
  "assemble_and_show s = (out, s') \<Longrightarrow> consistent s' = consistent s"
  by (drule assemble_and_show_eq) (rule consistent_cong; simp)

lemma matches_after_show:
  "assemble_and_show s = (out, s') \<Longrightarrow> order_matches_tiles s' = order_matches_tiles s"
  by (drule assemble_and_show_eq) (rule matches_cong; simp)

lemma consistent_show_cv: "consistent (snd (show_cv s im f)) = consistent s"
  by (rule consistent_cong) simp_all

lemma matches_show_cv: "order_matches_tiles (snd (show_cv s im f)) = order_matches_tiles s"
  by (rule matches_cong) simp_all

lemma consistent_assemble_and_show: "consistent (snd (assemble_and_show s)) = consistent s"
  by (rule consistent_cong) simp_all

lemma matches_assemble_and_show:
  "order_matches_tiles (snd (assemble_and_show s)) = order_matches_tiles s"
  by (rule matches_cong) simp_all

lemma consistent_reset: "consistent s \<Longrightarrow> consistent (snd (reset s))"
  by (rule reset_cases[where P = "\<lambda>r. consistent (snd r)"])
     (auto simp: consistent_after_show consistent_reset_upd)

lemma matches_reset: "order_matches_tiles s \<Longrightarrow> order_matches_tiles (snd (reset s))"
  by (rule reset_cases[where P = "\<lambda>r. order_matches_tiles (snd r)"])
     (auto simp: matches_after_show matches_reset_upd)

lemma consistent_bijective:
  "consistent s \<Longrightarrow> tile_order s = Some p \<Longrightarrow> bijective_order p (length p)"
  by (auto simp: consistent_def bijective_order_def split: option.splits)

lemma matches_bijective:
  "order_matches_tiles s \<Longrightarrow> tile_order s = Some p \<Longrightarrow> bijective_order p (length p)"
  by (auto simp: order_matches_tiles_def bijective_order_def split: option.splits)

lemma consistent_on_click:
  assumes "consistent s"
  shows "consistent (snd (on_click s x y))"
proof (rule on_click_cases[where P = "\<lambda>r. consistent (snd r)"])
  fix order idx order' e s2
  assume o: "tile_order s = Some order"
    and sw: "swap_items order (last (selected s)) idx = Inr order'"
    and a: "assemble_and_show (s\<lparr>selected := butlast (selected s), tile_order := Some order'\<rparr>)
             = (Raised e, s2)"
  have "bijective_order order' (length order)"
    using swap_items_bijective[OF consistent_bijective[OF assms o] sw] .
  then have "consistent (s\<lparr>selected := butlast (selected s), tile_order := Some order'\<rparr>)"
    using consistent_order_upd[of "s\<lparr>selected := butlast (selected s)\<rparr>" order order'] assms o
    by simp
  then show "consistent (snd (Raised e, s2))" using consistent_after_show[OF a] by simp
next
  fix order idx order' s2 st
  assume o: "tile_order s = Some order"
    and sw: "swap_items order (last (selected s)) idx = Inr order'"
    and a: "assemble_and_show (s\<lparr>selected := butlast (selected s), tile_order := Some order'\<rparr>)
             = (Done, s2)"
  have "bijective_order order' (length order)"
    using swap_items_bijective[OF consistent_bijective[OF assms o] sw] .
  then have "consistent (s\<lparr>selected := butlast (selected s), tile_order := Some order'\<rparr>)"
    using consistent_order_upd[of "s\<lparr>selected := butlast (selected s)\<rparr>" order order'] assms o
    by simp
  then have "consistent s2" using consistent_after_show[OF a] by simp
  then show "consistent (snd (Done, s2\<lparr>status := Solved, save_enabled := True\<rparr>)) \<and>
             consistent (snd (Done, s2\<lparr>status := st\<rparr>))"
    by simp
qed (use assms in simp_all)

lemma matches_on_click:
  assumes "order_matches_tiles s"
  shows "order_matches_tiles (snd (on_click s x y))"
proof (rule on_click_cases[where P = "\<lambda>r. order_matches_tiles (snd r)"])
  fix order idx order' e s2
  assume o: "tile_order s = Some order"
    and sw: "swap_items order (last (selected s)) idx = Inr order'"
    and a: "assemble_and_show (s\<lparr>selected := butlast (selected s), tile_order := Some order'\<rparr>)
             = (Raised e, s2)"
  have "bijective_order order' (length order)"
    using swap_items_bijective[OF matches_bijective[OF assms o] sw] .
  then have "order_matches_tiles (s\<lparr>selected := butlast (selected s), tile_order := Some order'\<rparr>)"
    using matches_order_upd[of "s\<lparr>selected := butlast (selected s)\<rparr>" order order'] assms o
    by simp
  then show "order_matches_tiles (snd (Raised e, s2))" using matches_after_show[OF a] by simp
next
  fix order idx order' s2 st
  assume o: "tile_order s = Some order"
    and sw: "swap_items order (last (selected s)) idx = Inr order'"
    and a: "assemble_and_show (s\<lparr>selected := butlast (selected s), tile_order := Some order'\<rparr>)
             = (Done, s2)"
  have "bijective_order order' (length order)"
    using swap_items_bijective[OF matches_bijective[OF assms o] sw] .
  then have "order_matches_tiles (s\<lparr>selected := butlast (selected s), tile_order := Some order'\<rparr>)"
    using matches_order_upd[of "s\<lparr>selected := butlast (selected s)\<rparr>" order order'] assms o
    by simp
  then have "order_matches_tiles s2" using matches_after_show[OF a] by simp
  then show "order_matches_tiles (snd (Done, s2\<lparr>status := Solved, save_enabled := True\<rparr>)) \<and>
             order_matches_tiles (snd (Done, s2\<lparr>status := st\<rparr>))"
    by simp
qed (use assms in simp_all)

lemma consistent_tiles_none:
  "consistent (s\<lparr>orig_img := a, img := b, tiles := None, tile_order := None, save_enabled := c\<rparr>)"
  by (simp add: consistent_def)

lemma matches_tiles_none:
  "order_matches_tiles
     (s\<lparr>orig_img := a, img := b, tiles := None, tile_order := None, save_enabled := c\<rparr>)"
  by (simp add: order_matches_tiles_def)

lemma consistent_open_image: "consistent s \<Longrightarrow> consistent (snd (open_image s opn))"
proof (cases opn)
  case (Decoded im copied)
  let ?X = "s\<lparr>orig_img := Some im, img := Some im, tiles := None, tile_order := None,
               save_enabled := False\<rparr>"
  obtain out s1 where a: "show_cv ?X (Some im) False = (out, s1)"
    by (cases "show_cv ?X (Some im) False")
  have "consistent s1" using consistent_show_cv[of ?X "Some im" False] a consistent_tiles_none by simp
  then show ?thesis using Decoded a by (cases out) (simp_all add: open_image_def)
qed (simp_all add: open_image_def)

lemma matches_open_image: "order_matches_tiles s \<Longrightarrow> order_matches_tiles (snd (open_image s opn))"
proof (cases opn)
  case (Decoded im copied)
  let ?X = "s\<lparr>orig_img := Some im, img := Some im, tiles := None, tile_order := None,
               save_enabled := False\<rparr>"
  obtain out s1 where a: "show_cv ?X (Some im) False = (out, s1)"
    by (cases "show_cv ?X (Some im) False")
  have "order_matches_tiles s1"
    using matches_show_cv[of ?X "Some im" False] a matches_tiles_none by simp
  then show ?thesis using Decoded a by (cases out) (simp_all add: open_image_def)
qed (simp_all add: open_image_def)

lemma consistent_resize_update: "consistent s \<Longrightarrow> consistent (snd (resize_update s pw ph))"
  by (simp add: resize_update_def Let_def consistent_show_cv consistent_assemble_and_show)

lemma matches_resize_update:
  "order_matches_tiles s \<Longrightarrow> order_matches_tiles (snd (resize_update s pw ph))"
  by (simp add: resize_update_def Let_def matches_show_cv matches_assemble_and_show)

lemma consistent_refresh_display:
  "draws_below (randbelow np) \<Longrightarrow> consistent s \<Longrightarrow>
   consistent (snd (refresh_display np rs s checked entropy))"
  by (simp add: refresh_display_def Let_def consistent_show_cv consistent_shuffle)

lemma matches_refresh_display:
  "draws_below (randbelow np) \<Longrightarrow> order_matches_tiles s \<Longrightarrow>
   order_matches_tiles (snd (refresh_display np rs s checked entropy))"
  by (simp add: refresh_display_def Let_def matches_show_cv matches_shuffle)

lemma consistent_handle:
  assumes "draws_below (randbelow np)" "consistent s" "\<not> selects_difficulty ev"
  shows "consistent (snd (handle np rs s ev))"
  using assms
  by (cases ev)
     (simp_all add: handle_def consistent_open_image consistent_refresh_display consistent_shuffle
        consistent_reset consistent_on_click consistent_resize_update)

lemma matches_handle:
  assumes "draws_below (randbelow np)" "order_matches_tiles s"
  shows "order_matches_tiles (snd (handle np rs s ev))"
  using assms
  by (cases ev)
     (simp_all add: handle_def matches_open_image matches_refresh_display matches_shuffle
        matches_reset matches_on_click matches_resize_update)

lemma consistent_run:
  assumes "draws_below (randbelow np)"
  shows "consistent s \<Longrightarrow> \<forall>ev \<in> set evs. \<not> selects_difficulty ev \<Longrightarrow> consistent (run np rs s evs)"
proof (induction evs arbitrary: s)
  case Nil
  then show ?case by (simp add: run_def)
next
  case (Cons ev evs)
  have "consistent (snd (handle np rs s ev))"
    using consistent_handle[OF assms Cons.prems(1)] Cons.prems(2) by simp
  from Cons.IH[OF this] Cons.prems(2) show ?case by (simp add: run_def)
qed

lemma matches_run:
  assumes "draws_below (randbelow np)"
  shows "order_matches_tiles s \<Longrightarrow> order_matches_tiles (run np rs s evs)"
proof (induction evs arbitrary: s)
  case Nil
  then show ?case by (simp add: run_def)
next
  case (Cons ev evs)
  from Cons.IH[OF matches_handle[OF assms Cons.prems]] show ?case by (simp add: run_def)
qed

lemma init_consistent: "consistent (init pw ph)" "order_matches_tiles (init pw ph)"
  by (simp_all add: consistent_def order_matches_tiles_def init_def)

section \<open>How one event changes the permutation\<close>


lemma order_change_refl [simp]: "order_change old old"
  by (simp add: order_change_def)

lemma order_change_None [simp]: "order_change old None"
  by (simp add: order_change_def)

lemma order_change_fresh: "bijective_order order n \<Longrightarrow> order_change old (Some order)"
  by (auto simp: order_change_def bijective_order_def)

lemma order_change_swap:
  "swap_items p a b = Inr p' \<Longrightarrow> order_change (Some p) (Some p')"
  by (auto simp: order_change_def swap_items_def split: if_splits)

lemma change_after_show:
  "assemble_and_show s = (out, s') \<Longrightarrow> tile_order s' = tile_order s"
  by (drule assemble_and_show_eq) simp

lemma change_shuffle:
  fixes s :: "('a::zero) gui"
  assumes d: "draws_below (randbelow np)"
  shows "order_change (tile_order s)
           (tile_order (snd (shuffle (np :: ('s, 'g) generator) rs s silent entropy)))"
proof (rule shuffle_cases[where P = "\<lambda>r. order_change (tile_order s) (tile_order (snd r))"])
  fix orig wimg :: "'a image" and tsize :: "int \<times> int" and order :: "nat list" and g :: 'g
    and e :: error and s4 :: "'a gui"
  let ?X = "(set_difficulty s)\<lparr>img := Some wimg,
          tiles := Some (cut_tiles wimg (grid_size (set_difficulty s)) tsize),
          tile_order := Some order\<rparr>"
  assume sl: "shuffle_list (randbelow np) (seeded np entropy)
        [0..<length (cut_tiles wimg (grid_size (set_difficulty s)) tsize)] = Inr (order, g)"
    and a: "assemble_and_show ?X = (Raised e, s4)"
  from shuffle_list_bijective[OF d, of "seeded np entropy"
      "length (cut_tiles wimg (grid_size (set_difficulty s)) tsize)"] sl
  have b: "bijective_order order (length (cut_tiles wimg (grid_size (set_difficulty s)) tsize))"
    by simp
  show "order_change (tile_order s) (tile_order (snd (Raised e, s4)))"
    using change_after_show[OF a] order_change_fresh[OF b] by simp
next
  fix orig wimg :: "'a image" and tsize :: "int \<times> int" and order :: "nat list" and g :: 'g
    and s4 :: "'a gui"
  let ?X = "(set_difficulty s)\<lparr>img := Some wimg,
          tiles := Some (cut_tiles wimg (grid_size (set_difficulty s)) tsize),
          tile_order := Some order\<rparr>"
  assume sl: "shuffle_list (randbelow np) (seeded np entropy)
        [0..<length (cut_tiles wimg (grid_size (set_difficulty s)) tsize)] = Inr (order, g)"
    and a: "assemble_and_show ?X = (Done, s4)"
  from shuffle_list_bijective[OF d, of "seeded np entropy"
      "length (cut_tiles wimg (grid_size (set_difficulty s)) tsize)"] sl
  have b: "bijective_order order (length (cut_tiles wimg (grid_size (set_difficulty s)) tsize))"
    by simp
  show "order_change (tile_order s)
          (tile_order (snd (Done, if silent then s4\<lparr>save_enabled := True\<rparr>
               else s4\<lparr>save_enabled := True, status := ShuffledClickTiles\<rparr>)))"
    using change_after_show[OF a] order_change_fresh[OF b] by simp
qed (simp_all add: set_difficulty_def)

lemma change_reset: "order_change (tile_order s) (tile_order (snd (reset s)))"
  by (rule reset_cases[where P = "\<lambda>r. order_change (tile_order s) (tile_order (snd r))"])
     (auto dest!: change_after_show intro: order_change_fresh[OF bijection_upt])

lemma change_on_click: "order_change (tile_order s) (tile_order (snd (on_click s x y)))"
  by (rule on_click_cases[where P = "\<lambda>r. order_change (tile_order s) (tile_order (snd r))"])
     (auto dest!: change_after_show intro: order_change_swap)

lemma change_open_image: "order_change (tile_order s) (tile_order (snd (open_image s opn)))"
proof (cases opn)
  case (Decoded im copied)
  let ?X = "s\<lparr>orig_img := Some im, img := Some im, tiles := None, tile_order := None,
               save_enabled := False\<rparr>"
  obtain out s1 where a: "show_cv ?X (Some im) False = (out, s1)"
    by (cases "show_cv ?X (Some im) False")
  from show_cv_eq[OF a] have "tile_order s1 = None" by simp
  then show ?thesis using Decoded a by (cases out) (simp_all add: open_image_def)
qed (simp_all add: open_image_def)

lemma change_handle:
  assumes "draws_below (randbelow np)"
  shows "order_change (tile_order s) (tile_order (snd (handle np rs s ev)))"
proof (cases ev)
  case (FillBox checked entropy)
  have "order_change (tile_order (s\<lparr>fill_box := checked\<rparr>))
          (tile_order (snd (shuffle np rs (s\<lparr>fill_box := checked\<rparr>) True entropy)))"
    by (rule change_shuffle[OF assms])
  then show ?thesis using FillBox by (simp add: handle_def refresh_display_def Let_def)
qed (simp_all add: handle_def change_open_image change_shuffle[OF assms] change_reset
       change_on_click set_difficulty_def resize_update_def Let_def)

lemma run_snoc: "run np rs s (evs @ [ev]) = snd (handle np rs (run np rs s evs) ev)"
  by (simp add: run_def)

lemma change_run:
  assumes "draws_below (randbelow np)" "k < length evs"
  shows "order_change (tile_order (run np rs s (take k evs)))
           (tile_order (run np rs s (take (Suc k) evs)))"
  unfolding take_Suc_conv_app_nth[OF assms(2)] run_snoc by (rule change_handle[OF assms(1)])

section \<open>The working image of a shuffle\<close>


lemma shuffle_loop_Inr_mset:
  "shuffle_loop rb k g xs = Inr (ys, g') \<Longrightarrow> mset ys = mset xs"
proof (induction k arbitrary: g xs)
  case 0
  then show ?case by simp
next
  case (Suc k)
  obtain j g1 where d: "rb g (Suc (Suc k)) = (j, g1)" by (cases "rb g (Suc (Suc k))")
  from Suc.prems d obtain xs' where
    s: "swap_items xs (Suc k) j = Inr xs'" and r: "shuffle_loop rb k g1 xs' = Inr (ys, g')"
    by (auto split: sum.splits)
  from s have "mset xs' = mset xs"
    by (auto simp: swap_items_def mset_swap split: if_splits)
  with Suc.IH[OF r] show ?case by simp
qed

lemma shuffle_list_Inr_bijective:
  "shuffle_list rb g [0..<n] = Inr (order, g') \<Longrightarrow> bijective_order order n"
  unfolding shuffle_list_def by (rule bijection_mset) (rule shuffle_loop_Inr_mset)

lemma nearest_resamples: "resamples nearest"
  by (simp add: resamples_def nearest_def has_shape_def list_all_iff)

lemma cv2_resize_shape:
  assumes "resamples rs" "cv2_resize rs src nw nh = Inr dst"
  shows "0 < nw \<and> 0 < nh \<and> has_shape dst (nat nh) (nat nw)"
  using assms by (auto simp: cv2_resize_def resamples_def split: if_splits)

lemma working_image_shape:
  assumes rs: "resamples rs" and w: "working_image rs s orig = Inr wimg"
    and g: "grid_size s = (gh, gw)" and gp: "0 < gh" "0 < gw"
  shows "\<exists>H W. has_shape wimg (nat H) (nat W) \<and> 0 < H \<and> 0 < W \<and> gh dvd H \<and> gw dvd W"
proof -
  from w g obtain im nw nh where
    c: "cv2_resize rs im ((nw div gw) * gw) ((nh div gh) * gh) = Inr wimg"
    by (auto simp: working_image_def Let_def split: if_splits sum.splits prod.splits)
  from cv2_resize_shape[OF rs c] show ?thesis
    by (intro exI[of _ "(nh div gh) * gh"] exI[of _ "(nw div gw) * gw"]) simp
qed

lemma DIFFICULTY_GRID_pos:
  "\<exists>gh gw. DIFFICULTY_GRID d = (int gh, int gw) \<and> 0 < gh \<and> 0 < gw"
  by (cases d) (auto simp: DIFFICULTY_GRID_def intro: exI[of _ 3] exI[of _ 4] exI[of _ 5])

lemma assemble_cong:
  "tiles s' = tiles s \<Longrightarrow> tile_order s' = tile_order s \<Longrightarrow> grid_size s' = grid_size s \<Longrightarrow>
   assemble s' = assemble s"
  by (auto simp: assemble_def split: option.splits)


lemma dvd_grid:
  fixes H :: int
  assumes "0 < H" "int gh dvd H" "0 < gh"
  shows "gh * (nat H div gh) = nat H \<and> 0 < nat H div gh \<and> H div int gh = int (nat H div gh)"
proof -
  from assms obtain k where k: "H = int gh * k" by (auto simp: dvd_def)
  with assms have kp: "0 < k" by (simp add: zero_less_mult_iff)
  have n: "nat H = gh * nat k" using k kp by (simp add: nat_mult_distrib)
  have "nat H div gh = nat k" using n assms(3) by simp
  moreover have "H div int gh = k" using k assms(3) by simp
  ultimately show ?thesis using n kp by simp
qed

section \<open>C8: what tile cutting returns\<close>




section \<open>C2: seeded order generation\<close>

text \<open>
  C2. For every \<open>n\<close> and seed, with a generator that keeps its contract, order generation
  succeeds, two calls with the same \<open>(n, seed)\<close> return the same order whatever the state
  of the module-level generator, each call leaves that state as it was, and the order is
  a bijection on \<open>{0..<n}\<close>.
\<close>

theorem generate_order_deterministic_bijective:
  assumes "draws_below (randbelow gen)"
  shows "\<exists>order. generate_order gen w1 n seed = (Inr order, w1) \<and>
                 generate_order gen w2 n seed = (Inr order, w2) \<and>
                 length order = n \<and> distinct order \<and> set order = {0..<n}"
proof -
  from shuffle_list_mset[OF assms, of "seeded gen seed" "[0..<n]"] obtain ys g' where
    s: "shuffle_list (randbelow gen) (seeded gen seed) [0..<n] = Inr (ys, g')"
    and m: "mset ys = mset [0..<n]" by blast
  from s have "generate_order gen w1 n seed = (Inr ys, w1)" "generate_order gen w2 n seed = (Inr ys, w2)"
    by (simp_all add: generate_order_def)
  with mset_upt_bijection[OF m] show ?thesis by blast
qed

theorem generate_order_deterministic_bijective_witness:
  "draws_below (randbelow lcg) \<and>
   generate_order lcg \<lparr>global_random = 7\<rparr> 9 42 = (Inr [3, 4, 7, 5, 8, 2, 1, 0, 6], \<lparr>global_random = 7\<rparr>)"
proof -
  have e: "generate_order lcg \<lparr>global_random = 7\<rparr> 9 42 = (Inr [3, 4, 7, 5, 8, 2, 1, 0, 6], \<lparr>global_random = 7\<rparr>)"
    by code_simp
  from generate_order_deterministic_bijective[OF lcg_draws_below, of "\<lparr>global_random = 7\<rparr>" 9 42 "\<lparr>global_random = 7\<rparr>"]
    lcg_draws_below e show ?thesis by simp
qed

section \<open>C4: solved exactly at the identity\<close>





text \<open>
  C4, as stated, fails: in the session \<open>stale_grid_events\<close> the last click exchanges the
  entries 0 and 1 of the 16-entry permutation while the grid is 3 by 3; the handler
  reports Solved, and the permutation is not \<open>[0, ..., rows * cols - 1]\<close>.
\<close>

theorem solved_on_stale_grid:
  "report (run lcg nearest (init 400 300) (butlast stale_grid_events)) =
     (SelectedTile 1, Some [1, 0, 2, 3, 4, 5, 6, 7, 8, 9, 10, 11, 12, 13, 14, 15], (3, 3), [0]) \<and>
   click_cell (run lcg nearest (init 400 300) (butlast stale_grid_events)) 160 10 =
     Inr (Some (0, 1)) \<and>
   last stale_grid_events = Click 160 10 \<and>
   report (run lcg nearest (init 400 300) stale_grid_events) =
     (Solved, Some [0, 1, 2, 3, 4, 5, 6, 7, 8, 9, 10, 11, 12, 13, 14, 15], (3, 3), []) \<and>
   [0, 1, 2, 3, 4, 5, 6, 7, 8, 9, 10, 11, 12, 13, 14, 15] \<noteq> [0..<nat (3 * 3)]"
proof -
  have 1: "report (run lcg nearest (init 400 300) (butlast stale_grid_events)) =
     (SelectedTile 1, Some [1, 0, 2, 3, 4, 5, 6, 7, 8, 9, 10, 11, 12, 13, 14, 15], (3, 3), [0])"
    by code_simp
  have 2: "click_cell (run lcg nearest (init 400 300) (butlast stale_grid_events)) 160 10 =
     Inr (Some (0, 1))"
    by code_simp
  have 3: "last stale_grid_events = Click 160 10" by (simp add: stale_grid_events_def)
  have 4: "report (run lcg nearest (init 400 300) stale_grid_events) =
     (Solved, Some [0, 1, 2, 3, 4, 5, 6, 7, 8, 9, 10, 11, 12, 13, 14, 15], (3, 3), [])"
    by code_simp
  have 5: "[0, 1, 2, 3, 4, 5, 6, 7, 8, 9, 10, 11, 12, 13, 14, 15] \<noteq> [0..<nat (3 * 3)]"
    by code_simp
  show ?thesis by (rule conjI[OF 1 conjI[OF 2 conjI[OF 3 conjI[OF 4 5]]]])
qed

section \<open>C6: clicking the same position twice\<close>

text \<open>
  C6. In a state with tiles, a permutation and no pending selection, a click on a grid
  cell selects it, and a second click at the same pointer position returns normally,
  leaves the permutation and the tiles as they were and clears the selection.
\<close>

theorem click_same_position_twice:
  assumes "tiles s = Some ts" "tile_order s = Some p" "selected s = []"
    and "click_cell s x y = Inr (Some (row, col))"
  shows "\<exists>s1 s2. on_click s x y = (Done, s1) \<and>
           selected s1 = [nat (row * snd (grid_size s) + col)] \<and>
           on_click s1 x y = (Done, s2) \<and>
           tile_order s2 = Some p \<and> selected s2 = [] \<and> tiles s2 = Some ts"
proof -
  define idx where "idx = nat (row * snd (grid_size s) + col)"
  define s1 where "s1 = s\<lparr>selected := [idx], status := SelectedTile (idx + 1)\<rparr>"
  have 1: "on_click s x y = (Done, s1)"
    using assms by (simp add: on_click_def Let_def idx_def s1_def)
  have c: "click_cell s1 x y = Inr (Some (row, col))"
    using assms(4) by (simp add: s1_def)
  have 2: "on_click s1 x y = (Done, s1\<lparr>selected := []\<rparr>)"
    unfolding on_click_def c using assms(1,2) by (simp add: s1_def Let_def idx_def)
  show ?thesis
    using 1 2 assms(1,2) by (simp add: s1_def idx_def)
qed

theorem click_same_position_twice_witness:
  "tiles demo = Some (cut_tiles demo_image (4, 4) (2, 2)) \<and>
   selected demo = [] \<and>
   click_cell demo 237 112 = Inr (Some (1, 2)) \<and>
   (\<exists>s1 s2. on_click demo 237 112 = (Done, s1) \<and> selected s1 = [6] \<and>
      on_click s1 237 112 = (Done, s2) \<and> tile_order s2 = tile_order demo \<and> selected s2 = [])"
proof -
  have 1: "tiles demo = Some (cut_tiles demo_image (4, 4) (2, 2))" by (simp add: demo_def)
  have 2: "tile_order demo = Some [11, 2, 6, 0, 5, 8, 15, 4, 12, 3, 13, 7, 9, 1, 14, 10]"
    by (simp add: demo_def)
  have 3: "selected demo = []" by (simp add: demo_def)
  have 4: "click_cell demo 237 112 = Inr (Some (1, 2))" by code_simp
  have 5: "nat (1 * snd (grid_size demo) + 2) = 6" by (simp add: demo_def)
  from click_same_position_twice[OF 1 2 3 4] 1 2 3 4 show ?thesis
    unfolding 5 by auto
qed

section \<open>C7: shuffle, reset and the pending selection\<close>




section \<open>C5: the permutation stays a bijection\<close>

text \<open>
  C5. With a generator that keeps its contract, along every sequence of window events
  from the initial state: after every event the permutation, when there is one, is a
  bijection on the indices of the tile list; each event leaves the permutation alone,
  discards it (a newly opened image), replaces it by a whole bijection (shuffle, reset) or
  exchanges two of its entries (click); and along every sequence of open, shuffle, click,
  reset, fill-box and resize events the permutation is a bijection on
  \<open>{0..<rows * cols}\<close> of the current grid after every event.
\<close>

theorem permutation_stays_bijection:
  assumes "draws_below (randbelow np)"
  shows "(\<forall>k \<le> length evs. order_matches_tiles (run np rs (init pw ph) (take k evs))) \<and>
         (\<forall>k < length evs.
            order_change (tile_order (run np rs (init pw ph) (take k evs)))
                         (tile_order (run np rs (init pw ph) (take (Suc k) evs)))) \<and>
         (list_all (\<lambda>ev. \<not> selects_difficulty ev) evs \<longrightarrow>
            (\<forall>k \<le> length evs. order_ok (run np rs (init pw ph) (take k evs))))"
proof (intro conjI impI allI)
  fix k
  show "order_matches_tiles (run np rs (init pw ph) (take k evs))"
    by (rule matches_run[OF assms init_consistent(2)])
next
  fix k assume "k < length evs"
  then show "order_change (tile_order (run np rs (init pw ph) (take k evs)))
                          (tile_order (run np rs (init pw ph) (take (Suc k) evs)))"
    by (rule change_run[OF assms])
next
  fix k
  assume "list_all (\<lambda>ev. \<not> selects_difficulty ev) evs"
  then have "\<forall>ev \<in> set (take k evs). \<not> selects_difficulty ev"
    by (auto simp: list_all_iff dest: in_set_takeD)
  from consistent_run[OF assms init_consistent(1) this]
  show "order_ok (run np rs (init pw ph) (take k evs))"
    by (rule consistent_order_ok)
qed

theorem permutation_stays_bijection_witness:
  "draws_below (randbelow lcg) \<and>
   list_all (\<lambda>ev. \<not> selects_difficulty ev)
     ([OpenImage (Decoded demo_image True), Shuffle 42, Click 237 112, Click 100 100, Reset]
        :: (nat, int) event list) \<and>
   order_ok (run lcg nearest (init 400 300)
     [OpenImage (Decoded demo_image True), Shuffle 42, Click 237 112, Click 100 100, Reset]) \<and>
   order_matches_tiles (run lcg nearest (init 400 300)
     [OpenImage (Decoded demo_image True), Shuffle 42, Click 237 112, Click 100 100, Reset])"
proof -
  let ?evs = "[OpenImage (Decoded demo_image True), Shuffle 42, Click 237 112, Click 100 100,
               Reset] :: (nat, int) event list"
  have 1: "draws_below (randbelow lcg)" by (rule lcg_draws_below)
  have 2: "list_all (\<lambda>ev. \<not> selects_difficulty ev) ?evs" by simp
  have 3: "take (length ?evs) ?evs = ?evs" by (rule take_all) simp
  from permutation_stays_bijection[OF 1, of ?evs nearest 400 300] 2
  have a: "\<forall>k \<le> length ?evs. order_matches_tiles (run lcg nearest (init 400 300) (take k ?evs))"
    and b: "\<forall>k \<le> length ?evs. order_ok (run lcg nearest (init 400 300) (take k ?evs))"
    by blast+
  from a have "order_matches_tiles (run lcg nearest (init 400 300) (take (length ?evs) ?evs))"
    by blast
  moreover from b have "order_ok (run lcg nearest (init 400 300) (take (length ?evs) ?evs))"
    by blast
  ultimately show ?thesis unfolding 3 using 1 2 by blast
qed

section \<open>C10: a shuffle works on a grid-divisible image\<close>

text \<open>
  C10. With a resize primitive that returns the requested size, every interactive shuffle
  of a loaded image that returns normally, in fit mode and in fill-box mode, has set the
  working image to one whose height is a multiple of the grid rows and whose width is a
  multiple of the grid columns; all \<open>rows * cols\<close> tiles cut from it have the shape
  \<open>(H / rows, W / cols)\<close>, and the image assembled from the tiles has the working image's
  shape.
\<close>

theorem shuffle_makes_grid_divisible:
  fixes s :: "('a::zero) gui" and np :: "('s, 'g) generator"
  assumes rs: "resamples rs"
    and ok: "shuffle np rs s silent entropy = (Done, s')"
    and loaded: "orig_img s \<noteq> None"
  shows "\<exists>wimg ts puzzle gh gw H W.
           grid_size s' = (int gh, int gw) \<and> img s' = Some wimg \<and> tiles s' = Some ts \<and>
           has_shape wimg H W \<and> gh dvd H \<and> gw dvd W \<and> 0 < H \<and> 0 < W \<and>
           length ts = gh * gw \<and> (\<forall>t \<in> set ts. has_shape t (H div gh) (W div gw)) \<and>
           assemble s' = Inr (Some puzzle) \<and> has_shape puzzle H W"
proof -
  let ?P = "\<lambda>r :: outcome \<times> 'a gui. fst r = Done \<longrightarrow> (\<exists>wimg ts puzzle gh gw H W.
           grid_size (snd r) = (int gh, int gw) \<and> img (snd r) = Some wimg \<and>
           tiles (snd r) = Some ts \<and>
           has_shape wimg H W \<and> gh dvd H \<and> gw dvd W \<and> 0 < H \<and> 0 < W \<and>
           length ts = gh * gw \<and> (\<forall>t \<in> set ts. has_shape t (H div gh) (W div gw)) \<and>
           assemble (snd r) = Inr (Some puzzle) \<and> has_shape puzzle H W)"
  have "?P (shuffle np rs s silent entropy)"
  proof (rule shuffle_cases[where P = ?P])
    assume "orig_img s = None"
    with loaded show "?P (Done, if silent then s else s\<lparr>status := LoadAnImageFirst\<rparr>)" by simp
  next
    fix orig wimg :: "'a image" and tsize :: "int \<times> int" and order :: "nat list" and g :: 'g
      and s4 :: "'a gui"
    let ?sd = "set_difficulty s"
    let ?ts = "cut_tiles wimg (grid_size ?sd) tsize"
    let ?X = "?sd\<lparr>img := Some wimg, tiles := Some ?ts, tile_order := Some order\<rparr>"
    assume w: "working_image rs ?sd orig = Inr wimg"
      and t: "tile_size wimg (grid_size ?sd) = Inr tsize"
      and sl: "shuffle_list (randbelow np) (seeded np entropy) [0..<length ?ts] = Inr (order, g)"
      and a: "assemble_and_show ?X = (Done, s4)"
    from DIFFICULTY_GRID_pos[of "difficulty s"] obtain gh gw where
      g: "grid_size ?sd = (int gh, int gw)" and gp: "0 < gh" "0 < gw"
      by (auto simp: set_difficulty_def)
    from working_image_shape[OF rs w g] gp obtain H W where
      sh: "has_shape wimg (nat H) (nat W)" and hp: "0 < H" "0 < W"
      and dv: "int gh dvd H" "int gw dvd W"
      by auto
    note dh = dvd_grid[OF hp(1) dv(1) gp(1)] and dw = dvd_grid[OF hp(2) dv(2) gp(2)]
    define th tw where "th = nat H div gh" and "tw = nat W div gw"
    have hw: "height wimg = nat H" "width wimg = nat W"
      using sh hp by (simp_all add: has_shape_height has_shape_width)
    have ts: "tsize = (int th, int tw)"
      using t g gp hp dh dw by (simp add: tile_size_def hw th_def tw_def Let_def)
    have fit: "gh * th \<le> nat H" "gw * tw \<le> nat W" using dh dw by (simp_all add: th_def tw_def)
    have lts: "length ?ts = gh * gw" unfolding g by (rule length_cut_tiles)
    have sts: "\<forall>t \<in> set ?ts. has_shape t th tw"
      unfolding g ts by (rule cut_tiles_has_shape[OF sh fit])
    have bo: "bijective_order order (gh * gw)"
      using shuffle_list_Inr_bijective[OF sl] lts by simp
    then have lo: "length order = gh * gw" by (simp add: bijective_order_def)
    have pr: "\<forall>k < length order. order ! k < length ?ts"
      using bijection_nth[OF bo] lo lts by simp
    have tp: "0 < th" "0 < tw" using dh dw by (simp_all add: th_def tw_def)
    have Xf: "tiles ?X = Some ?ts" "tile_order ?X = Some order" "grid_size ?X = (int gh, int gw)"
      using g by simp_all
    from assemble_pixels[OF Xf(1,2,3) gp lts lo pr sts tp] obtain puzzle where
      ap: "assemble ?X = Inr (Some puzzle)" and ps: "has_shape puzzle (gh * th) (gw * tw)"
      by blast
    have ps': "has_shape puzzle (nat H) (nat W)"
      using ps dh dw by (simp add: th_def tw_def)
    let ?s' = "if silent then s4\<lparr>save_enabled := True\<rparr>
               else s4\<lparr>save_enabled := True, status := ShuffledClickTiles\<rparr>"
    from assemble_and_show_eq[OF a] have
      f: "tiles ?s' = Some ?ts" "tile_order ?s' = Some order" "grid_size ?s' = (int gh, int gw)"
         "img ?s' = Some wimg"
      using g by simp_all
    have as: "assemble ?s' = Inr (Some puzzle)"
      using assemble_cong[of ?s' ?X] f Xf ap by simp
    have d: "gh dvd nat H" "gw dvd nat W"
      using dh dw by (metis dvd_triv_left)+
    have "\<forall>t \<in> set ?ts. has_shape t (nat H div gh) (nat W div gw)"
      using sts by (simp add: th_def tw_def)
    with f as ps' sh d hp lts show "?P (Done, ?s')"
      by (intro impI exI[of _ wimg] exI[of _ ?ts] exI[of _ puzzle] exI[of _ gh] exI[of _ gw]
            exI[of _ "nat H"] exI[of _ "nat W"]) simp
  qed simp_all
  with ok show ?thesis by simp
qed

theorem shuffle_makes_grid_divisible_witness:
  "resamples (nearest :: nat image \<Rightarrow> nat \<Rightarrow> nat \<Rightarrow> nat image) \<and> orig_img demo \<noteq> None \<and>
   fst (shuffle lcg nearest demo False 7) = Done \<and>
   (\<exists>wimg ts puzzle gh gw H W.
      grid_size (snd (shuffle lcg nearest demo False 7)) = (int gh, int gw) \<and>
      img (snd (shuffle lcg nearest demo False 7)) = Some wimg \<and>
      tiles (snd (shuffle lcg nearest demo False 7)) = Some ts \<and>
      has_shape wimg H W \<and> gh dvd H \<and> gw dvd W \<and> 0 < H \<and> 0 < W \<and>
      length ts = gh * gw \<and> (\<forall>t \<in> set ts. has_shape t (H div gh) (W div gw)) \<and>
      assemble (snd (shuffle lcg nearest demo False 7)) = Inr (Some puzzle) \<and>
      has_shape puzzle H W)"
proof -
  have 1: "resamples (nearest :: nat image \<Rightarrow> nat \<Rightarrow> nat \<Rightarrow> nat image)"
    by (rule nearest_resamples)
  have 2: "fst (shuffle lcg nearest demo False 7) = Done" by code_simp
  have 3: "shuffle lcg nearest demo False 7 = (Done, snd (shuffle lcg nearest demo False 7))"
    using 2 by (metis prod.collapse)
  have 4: "orig_img demo \<noteq> None" by (simp add: demo_def)
  note 5 = shuffle_makes_grid_divisible[OF 1 3 4]
  show ?thesis by (rule conjI[OF 1 conjI[OF 4 conjI[OF 2 5]]])
qed

end
